theory Spec2Isabelle
  imports Main "HOL-Library.Word"
begin

unbundle bit_operations_syntax

section \<open>Python values used by the decoders\<close>

text \<open>
  The exceptions the two source files can raise.  \<open>ImageError\<close> is the class defined in
  image.py; the others are Python built-ins: \<open>IndexError\<close> (a list or bytes index out of
  range), \<open>OSError\<close> (a missing companion file, a seek to a negative offset),
  \<open>ValueError\<close> (raised by the eager reader for an unknown type code, and by a read of
  a length below -1) and \<open>TypeError\<close> (a float handed to \<open>range\<close>).
\<close>

datatype exn = ImageError | IndexError | OSError | ValueError | TypeError

type_synonym byte = "8 word"

text \<open>An RGBA quad as the 4-tuple of Python ints that image.py stores in its pixel list.\<close>

type_synonym rgba = "int \<times> int \<times> int \<times> int"

text \<open>
  The position a Python index denotes in a sequence of \<open>n\<close> items: an index below zero
  is taken from the end, and there is no position when it falls outside.
\<close>

definition py_index :: "nat \<Rightarrow> int \<Rightarrow> nat option" where
  "py_index n i =
     (if 0 \<le> i \<and> i < int n then Some (nat i)
      else if - int n \<le> i \<and> i < 0 then Some (nat (int n + i))
      else None)"

text \<open>\<open>xs[i]\<close> and \<open>xs[i] = v\<close>; IndexError where there is no such position.\<close>

definition py_get :: "'a list \<Rightarrow> int \<Rightarrow> exn + 'a" where
  "py_get xs i =
     (case py_index (length xs) i of None \<Rightarrow> Inl IndexError | Some k \<Rightarrow> Inr (xs ! k))"

definition py_set :: "'a list \<Rightarrow> int \<Rightarrow> 'a \<Rightarrow> exn + 'a list" where
  "py_set xs i v =
     (case py_index (length xs) i of None \<Rightarrow> Inl IndexError | Some k \<Rightarrow> Inr (xs[k := v]))"

text \<open>\<open>range(n)\<close> and \<open>range(a, b)\<close>; both are empty when the bound is not above the start.\<close>

definition py_range :: "int \<Rightarrow> int list" where
  "py_range n = map int [0..<nat n]"

definition py_range2 :: "int \<Rightarrow> int \<Rightarrow> int list" where
  "py_range2 a b = map (\<lambda>k. a + int k) [0..<nat (b - a)]"

text \<open>\<open>xs * n\<close> on a list.\<close>

definition py_list_mul :: "'a list \<Rightarrow> int \<Rightarrow> 'a list" where
  "py_list_mul xs n = concat (replicate (nat n) xs)"

text \<open>
  A \<open>for\<close> loop over a list of indices whose body updates the loop's variables and may
  raise: the first exception ends the loop.
\<close>

primrec for_each :: "'i list \<Rightarrow> ('i \<Rightarrow> 's \<Rightarrow> exn + 's) \<Rightarrow> 's \<Rightarrow> exn + 's" where
  "for_each [] body s = Inr s"
| "for_each (k # ks) body s =
     (case body k s of Inl e \<Rightarrow> Inl e | Inr s' \<Rightarrow> for_each ks body s')"

section \<open>The pixel decoder (\<open>set555Pixel\<close>, identical in image.py and bitmap.py)\<close>

definition set555Pixel :: "int \<Rightarrow> int \<Rightarrow> int" where
  "set555Pixel colour width =
     (let rgba = 0xff000000 in
      if colour = 0xf81f then rgba
      else
        let rgba = rgba OR (drop_bit 7 (colour AND 0x7c00) OR drop_bit 12 (colour AND 0x7000));
            rgba = rgba OR (push_bit 6 (colour AND 0x3e0) OR push_bit 1 (colour AND 0x380));
            rgba = rgba OR (push_bit 19 (colour AND 0x1f) OR push_bit 14 (colour AND 0x1c))
        in rgba)"

text \<open>
  The quad image.py builds from the packed value:
  \<open>(pixel & 255, (pixel & 255 << 8) >> 8, (pixel & 255 << 16) >> 16, pixel >> 24)\<close>,
  where \<open><<\<close> binds tighter than \<open>&\<close>.  bitmap.py writes the same four bytes with
  \<open>pixel.to_bytes(4, "little")\<close>.
\<close>

definition pixel_tuple :: "int \<Rightarrow> rgba" where
  "pixel_tuple pixel =
     (pixel AND 255, drop_bit 8 (pixel AND push_bit 8 255),
      drop_bit 16 (pixel AND push_bit 16 255), drop_bit 24 pixel)"

text \<open>\<open>buffer[i] | (buffer[i + 1] << 8)\<close>: one little-endian 16-bit sample.\<close>

definition sample :: "byte list \<Rightarrow> int \<Rightarrow> exn + int" where
  "sample buffer i =
     (case py_get buffer i of
        Inl e \<Rightarrow> Inl e
      | Inr lo \<Rightarrow>
          (case py_get buffer (i + 1) of
             Inl e \<Rightarrow> Inl e
           | Inr hi \<Rightarrow> Inr (uint lo OR push_bit 8 (uint hi))))"

text \<open>\<open>(buffer[i + 1] << 8) | buffer[i]\<close>, the order the tile writer uses.\<close>

definition sample_hi :: "byte list \<Rightarrow> int \<Rightarrow> exn + int" where
  "sample_hi buffer i =
     (case py_get buffer (i + 1) of
        Inl e \<Rightarrow> Inl e
      | Inr hi \<Rightarrow>
          (case py_get buffer i of
             Inl e \<Rightarrow> Inl e
           | Inr lo \<Rightarrow> Inr (push_bit 8 (uint hi) OR uint lo)))"

section \<open>image.py: the record and its verification\<close>

datatype ImgType = unknown | plain | isometric | sprite

text \<open>
  \<open>get_img_type\<close>: the first entry of the table \<open>types\<close> that lists the code; a code in no
  entry is logged and mapped to \<open>ImgType.unknown\<close> (the \<open>raise ValueError\<close> is commented
  out in the source).  Calls of the logger \<open>error(...)\<close> have no effect on the decode and
  are not modelled.
\<close>

definition types :: "(ImgType \<times> int list) list" where
  "types = [(plain, [0, 1, 10, 12, 13]), (isometric, [30]), (sprite, [256, 257, 276])]"

fun get_img_type_in :: "(ImgType \<times> int list) list \<Rightarrow> int \<Rightarrow> ImgType" where
  "get_img_type_in [] imgType = unknown"
| "get_img_type_in ((k, v) # rest) imgType =
     (if imgType \<in> set v then k else get_img_type_in rest imgType)"

definition get_img_type :: "int \<Rightarrow> ImgType" where
  "get_img_type imgType = get_img_type_in types imgType"

text \<open>
  A PIL image in mode RGBA: its size and its pixels in row-major order.
  \<open>PILImage.new("RGBA", size)\<close> is filled with \<open>(0, 0, 0, 0)\<close>; \<open>putdata\<close> copies a
  sequence of quads into the image from the first pixel on.
\<close>

type_synonym pil = "(int \<times> int) \<times> rgba list"

definition PILImage_new :: "int \<times> int \<Rightarrow> pil" where
  "PILImage_new sz = (sz, replicate (nat (fst sz * snd sz)) (0, 0, 0, 0))"

definition putdata :: "pil \<Rightarrow> rgba list \<Rightarrow> pil" where
  "putdata im data = (fst im, take (length (snd im)) data @ drop (length data) (snd im))"

text \<open>
  The fields of an \<open>Image\<close> object that \<open>read_image\<close> uses, as \<open>read_header\<close> leaves them,
  and the attribute \<open>self.image\<close>, absent until \<open>read_image\<close> creates it.
\<close>

record Image =
  offset555 :: int
  length_rec :: int
  uncompressedLength :: int
  width :: int
  height :: int
  imgType :: ImgType
  flags :: "byte list"
  alphaLength :: int
  image_pil :: "pil option"

definition verify :: "Image \<Rightarrow> bool" where
  "verify self =
     (if width self \<le> 0 \<or> height self \<le> 0 then False
      else if length_rec self \<le> 0 then False
      else True)"

text \<open>
  Reading from a binary file of the given contents: \<open>seek\<close> to a negative offset raises
  OSError; \<open>read(n)\<close> returns at most \<open>n\<close> bytes (fewer at the end of the file),
  everything that is left for \<open>n = -1\<close>, and raises ValueError for a length below \<open>-1\<close>.
\<close>

definition seek_read :: "byte list \<Rightarrow> int \<Rightarrow> int \<Rightarrow> exn + byte list" where
  "seek_read file pos n =
     (if pos < 0 then Inl OSError
      else if n < - 1 then Inl ValueError
      else if n = - 1 then Inr (drop (nat pos) file)
      else Inr (take (nat n) (drop (nat pos) file)))"

text \<open>
  The \<open>with open(...)\<close> block of \<open>read_image\<close>; the companion file is \<open>None\<close> when it does
  not exist.
\<close>

definition read_buffer :: "byte list option \<Rightarrow> Image \<Rightarrow> exn + byte list" where
  "read_buffer f2 self =
     (case f2 of
        None \<Rightarrow> Inl OSError
      | Some file \<Rightarrow>
          (let dataLength = length_rec self + alphaLength self in
           case py_get (flags self) 0 of
             Inl e \<Rightarrow> Inl e
           | Inr flag0 \<Rightarrow> seek_read file (offset555 self - uint flag0) dataLength))"

section \<open>image.py: the plain decoder\<close>

text \<open>
  The body of the two nested loops of the plain branch; the loop variables are the pixel
  list and the read index \<open>i\<close>.
\<close>

definition plain_pixel ::
  "int \<Rightarrow> byte list \<Rightarrow> int \<Rightarrow> int \<Rightarrow> rgba list \<times> int \<Rightarrow> exn + rgba list \<times> int" where
  "plain_pixel w buffer y x =
     (\<lambda>(img, i).
        case sample buffer i of
          Inl e \<Rightarrow> Inl e
        | Inr colour \<Rightarrow>
            (let pixel = set555Pixel colour w in
             case py_set img ((y * w) + x) (pixel_tuple pixel) of
               Inl e \<Rightarrow> Inl e
             | Inr img' \<Rightarrow> Inr (img', i + 2)))"

definition read_plain ::
  "int \<Rightarrow> int \<Rightarrow> byte list \<Rightarrow> rgba list \<Rightarrow> exn + rgba list \<times> int" where
  "read_plain w h buffer img =
     for_each (py_range h)
       (\<lambda>y. for_each (py_range w) (\<lambda>x. plain_pixel w buffer y x)) (img, 0)"

section \<open>image.py: the run-length decoder \<open>writeTransparentImage\<close>\<close>

text \<open>
  \<open>while (x >= self.width): y += 1; x -= self.width\<close>.  The loop does not end when the
  width is not positive and the condition holds once, so its result is optional.
\<close>

partial_function (option) wrap_cursor :: "int \<Rightarrow> int \<Rightarrow> int \<Rightarrow> (int \<times> int) option" where
  "wrap_cursor w x y = (if x \<ge> w then wrap_cursor w (x - w) (y + 1) else Some (x, y))"

text \<open>One round of \<open>for j in range(c)\<close>; the loop variables are the pixel list, x, y and i.\<close>

type_synonym rle_state = "rgba list \<times> int \<times> int \<times> int"

definition opaque_pixel :: "int \<Rightarrow> byte list \<Rightarrow> rle_state \<Rightarrow> exn + rle_state" where
  "opaque_pixel w buffer =
     (\<lambda>(img, x, y, i).
        case sample buffer i of
          Inl e \<Rightarrow> Inl e
        | Inr colour \<Rightarrow>
            (let pixel = set555Pixel colour w in
             case py_set img ((y * w) + x) (pixel_tuple pixel) of
               Inl e \<Rightarrow> Inl e
             | Inr img' \<Rightarrow>
                 (let x = x + 1 in
                  if x \<ge> w then Inr (img', 0, y + 1, i + 2)
                  else Inr (img', x, y, i + 2))))"

definition opaque_run :: "int \<Rightarrow> byte list \<Rightarrow> int \<Rightarrow> rle_state \<Rightarrow> exn + rle_state" where
  "opaque_run w buffer c = for_each (py_range c) (\<lambda>j. opaque_pixel w buffer)"

text \<open>
  The \<open>while i < length\<close> loop, from any values of its variables.  The result is \<open>None\<close>
  when the cursor wrap does not end, \<open>Some (Inl e)\<close> when an index is out of range.
\<close>

function rle_loop ::
  "int \<Rightarrow> byte list \<Rightarrow> int \<Rightarrow> rle_state \<Rightarrow> (exn + rle_state) option" where
  "rle_loop w buffer len (img, x, y, i) =
     (if i < len then
        (case py_get buffer i of
           Inl e \<Rightarrow> Some (Inl e)
         | Inr c \<Rightarrow>
             (if uint c = 255 then
                (case py_get buffer (i + 1) of
                   Inl e \<Rightarrow> Some (Inl e)
                 | Inr n \<Rightarrow>
                     (case wrap_cursor w (x + uint n) y of
                        None \<Rightarrow> None
                      | Some (x', y') \<Rightarrow> rle_loop w buffer len (img, x', y', i + 1 + 1)))
              else
                (case opaque_run w buffer (uint c) (img, x, y, i + 1) of
                   Inl e \<Rightarrow> Some (Inl e)
                 | Inr s' \<Rightarrow> rle_loop w buffer len s')))
      else Some (Inr (img, x, y, i)))"
  by pat_completeness auto
termination
proof (relation "measure (\<lambda>(w, buffer, len, img, x, y, i). nat (len - i))")
  show "wf (measure (\<lambda>(w, buffer, len, img, x, y, i). nat (len - i)))"
    by simp
next
  fix w :: int and buffer :: "byte list" and len :: int and img :: "rgba list"
    and x y i :: int and c n :: byte and xy :: "int \<times> int" and x' y' :: int
  assume "i < len"
  then show "((w, buffer, len, img, x', y', i + 1 + 1), (w, buffer, len, img, x, y, i))
      \<in> measure (\<lambda>(w, buffer, len, img, x, y, i). nat (len - i))"
    by simp
next
  fix w :: int and buffer :: "byte list" and len :: int and img :: "rgba list"
    and x y i :: int and c :: byte and s' :: rle_state
  assume lt: "i < len"
    and run: "opaque_run w buffer (uint c) (img, x, y, i + 1) = Inr s'"
  have step: "for_each ks (\<lambda>j. opaque_pixel w buffer) s = Inr t
      \<Longrightarrow> snd (snd (snd s)) \<le> snd (snd (snd t))" for ks :: "int list" and s t :: rle_state
  proof (induction ks arbitrary: s)
    case Nil
    then show ?case by simp
  next
    case (Cons k ks)
    from Cons.prems obtain s1 where s1: "opaque_pixel w buffer s = Inr s1"
      and rest: "for_each ks (\<lambda>j. opaque_pixel w buffer) s1 = Inr t"
      by (auto split: sum.splits)
    from s1 have "snd (snd (snd s)) \<le> snd (snd (snd s1))"
      by (auto simp: opaque_pixel_def Let_def split: prod.splits sum.splits if_splits)
    with Cons.IH [OF rest] show ?case by simp
  qed
  from step [of "py_range (uint c)" "(img, x, y, i + 1)" s'] run
  have "i + 1 \<le> snd (snd (snd s'))"
    by (simp add: opaque_run_def)
  with lt show "((w, buffer, len, s'), (w, buffer, len, img, x, y, i))
      \<in> measure (\<lambda>(w, buffer, len, img, x, y, i). nat (len - i))"
    by (cases s') auto
qed

declare rle_loop.simps [simp del]

text \<open>\<open>writeTransparentImage(image, buffer, length)\<close>: the loop from \<open>i, x, y = 0, 0, 0\<close>.\<close>

definition writeTransparentImage ::
  "int \<Rightarrow> rgba list \<Rightarrow> byte list \<Rightarrow> int \<Rightarrow> (exn + rgba list) option" where
  "writeTransparentImage w img buffer len =
     (case rle_loop w buffer len (img, 0, 0, 0) of
        None \<Rightarrow> None
      | Some (Inl e) \<Rightarrow> Some (Inl e)
      | Some (Inr (img', x, y, i)) \<Rightarrow> Some (Inr img'))"

section \<open>image.py: the isometric decoder\<close>

definition isometricTileWidth :: int where "isometricTileWidth = 58"
definition isometricTileHeight :: int where "isometricTileHeight = 30"
definition isometricTileBytes :: int where "isometricTileBytes = 1800"
definition isometricLargeTileWidth :: int where "isometricLargeTileWidth = 78"
definition isometricLargeTileHeight :: int where "isometricLargeTileHeight = 40"
definition isometricLargeTileBytes :: int where "isometricLargeTileBytes = 3200"

text \<open>\<open>xs[k:]\<close>.\<close>

definition py_slice_from :: "'a list \<Rightarrow> int \<Rightarrow> 'a list" where
  "py_slice_from xs k =
     (if k < 0 then drop (nat (int (length xs) + k)) xs else drop (nat k) xs)"

text \<open>
  The body of the innermost loops of \<open>writeIsometricTile\<close>.  The second argument of
  \<open>set555Pixel\<close> is the tile row \<open>y\<close> here.
\<close>

definition tile_pixel ::
  "int \<Rightarrow> byte list \<Rightarrow> int \<Rightarrow> int \<Rightarrow> int \<Rightarrow> int \<Rightarrow> rgba list \<times> int
    \<Rightarrow> exn + rgba list \<times> int" where
  "tile_pixel w buffer xOffset yOffset y x =
     (\<lambda>(img, i).
        case sample_hi buffer i of
          Inl e \<Rightarrow> Inl e
        | Inr colour \<Rightarrow>
            (let pixel = set555Pixel colour y in
             case py_set img (((y + yOffset) * w) + xOffset + x) (pixel_tuple pixel) of
               Inl e \<Rightarrow> Inl e
             | Inr img' \<Rightarrow> Inr (img', i + 2)))"

text \<open>
  \<open>writeIsometricTile\<close>; \<open>int(tileHeight / 2)\<close> is the float quotient cut to an integer,
  which is \<open>tileHeight div 2\<close> for the two tile heights 30 and 40.
\<close>

definition writeIsometricTile ::
  "int \<Rightarrow> rgba list \<Rightarrow> byte list \<Rightarrow> int \<Rightarrow> int \<Rightarrow> int \<Rightarrow> int \<Rightarrow> exn + rgba list" where
  "writeIsometricTile w img buffer xOffset yOffset tileWidth tileHeight =
     (let halfHeight = tileHeight div 2 in
      case for_each (py_range halfHeight)
             (\<lambda>y. let start = tileHeight - 2 * (y + 1); end_x = tileWidth - start in
                  for_each (py_range2 start end_x) (\<lambda>x. tile_pixel w buffer xOffset yOffset y x))
             (img, 0) of
        Inl e \<Rightarrow> Inl e
      | Inr s \<Rightarrow>
          (case for_each (py_range2 halfHeight tileHeight)
                  (\<lambda>y. let start = 2 * y - tileHeight; end_x = tileWidth - start in
                       for_each (py_range2 start end_x)
                         (\<lambda>x. tile_pixel w buffer xOffset yOffset y x))
                  s of
             Inl e \<Rightarrow> Inl e
           | Inr (img', i) \<Rightarrow> Inr img'))"

text \<open>
  The tile-size resolution of \<open>read_image\<close>: the local \<open>size\<close> starts as \<open>flags[3]\<close>
  (\<open>size0\<close>) and the local \<open>height\<close> is \<open>int((self.width + 2) / 2)\<close> (\<open>height'\<close>); the
  quotients \<open>int(height / 30)\<close> and \<open>int(height / 40)\<close> are taken where they are exact.
\<close>

definition derive_size :: "int \<Rightarrow> int \<Rightarrow> int" where
  "derive_size size0 height' =
     (if size0 = 0 then
        (if height' mod isometricTileHeight = 0 then height' div isometricTileHeight
         else if height' mod isometricLargeTileHeight = 0 then height' div isometricLargeTileHeight
         else size0)
      else size0)"

text \<open>
  The choice between regular and large tiles: \<open>(tileBytes, tileHeight, tileWidth)\<close>, or
  \<open>None\<close> where the source logs "Unknown tile size" and returns.
\<close>

definition tile_profile :: "int \<Rightarrow> int \<Rightarrow> (int \<times> int \<times> int) option" where
  "tile_profile size' height' =
     (if isometricTileHeight * size' = height' then
        Some (isometricTileBytes, isometricTileHeight, isometricTileWidth)
      else if isometricLargeTileHeight * size' = height' then
        Some (isometricLargeTileBytes, isometricLargeTileHeight, isometricLargeTileWidth)
      else None)"

text \<open>The body of \<open>for x in enumerate(range(wd))\<close>; the variables are the pixels, i and xOffset.\<close>

definition mosaic_tile ::
  "int \<Rightarrow> byte list \<Rightarrow> int \<Rightarrow> int \<Rightarrow> int \<Rightarrow> int \<Rightarrow> rgba list \<times> int \<times> int
    \<Rightarrow> exn + rgba list \<times> int \<times> int" where
  "mosaic_tile w buffer yOffset tileBytes tileWidth tileHeight =
     (\<lambda>(img, i, xOffset).
        case writeIsometricTile w img (py_slice_from buffer (i * tileBytes))
               xOffset yOffset tileWidth tileHeight of
          Inl e \<Rightarrow> Inl e
        | Inr img' \<Rightarrow> Inr (img', i + 1, xOffset + (tileWidth + 2)))"

text \<open>The body of \<open>for y in range(size + (size - 1))\<close>; the variables are the pixels, i and yOffset.\<close>

definition mosaic_row ::
  "int \<Rightarrow> byte list \<Rightarrow> int \<Rightarrow> int \<Rightarrow> int \<Rightarrow> int \<Rightarrow> int \<Rightarrow> rgba list \<times> int \<times> int
    \<Rightarrow> exn + rgba list \<times> int \<times> int" where
  "mosaic_row w buffer size' tileBytes tileWidth tileHeight y =
     (\<lambda>(img, i, yOffset).
        let xOffset = (if y < size' then size' - y - 1 else y - size' + 1);
            xOffset = xOffset * tileHeight;
            wd = (if y < size' then y + 1 else (2 * size') - y - 1)
        in case for_each (py_range wd)
                  (\<lambda>x. mosaic_tile w buffer yOffset tileBytes tileWidth tileHeight)
                  (img, i, xOffset) of
             Inl e \<Rightarrow> Inl e
           | Inr (img', i', xOffset') \<Rightarrow> Inr (img', i', yOffset + tileHeight div 2))"

definition write_base ::
  "int \<Rightarrow> byte list \<Rightarrow> int \<Rightarrow> int \<Rightarrow> int \<Rightarrow> int \<Rightarrow> int \<Rightarrow> rgba list
    \<Rightarrow> exn + rgba list \<times> int \<times> int" where
  "write_base w buffer size' tileBytes tileWidth tileHeight yOffset img =
     for_each (py_range (size' + (size' - 1)))
       (mosaic_row w buffer size' tileBytes tileWidth tileHeight) (img, 0, yOffset)"

text \<open>
  The isometric branch of \<open>read_image\<close>.  \<open>Inr None\<close> is the early \<open>return None\<close> after a
  logged geometry error; \<open>Inr (Some img)\<close> goes on to \<open>putdata\<close>.  After the call of
  \<open>writeTransparentImage\<close> the source runs the same loop once more in line, on the whole
  buffer, with \<open>i\<close> starting at \<open>uncompressedLength\<close> and the bound
  \<open>length - uncompressedLength\<close>.  \<open>int((self.width + 2) / 2)\<close> is \<open>(width + 2) div 2\<close>
  for the positive 16-bit widths that pass \<open>verify\<close>.
\<close>

definition read_isometric ::
  "Image \<Rightarrow> rgba list \<Rightarrow> byte list \<Rightarrow> (exn + rgba list option) option" where
  "read_isometric self img buffer =
     (case py_get (flags self) 3 of
        Inl e \<Rightarrow> Some (Inl e)
      | Inr flag3 \<Rightarrow>
          (let size0 = uint flag3;
               height' = (width self + 2) div 2;
               yOffset = height self - height';
               size' = derive_size size0 height'
           in case tile_profile size' height' of
                None \<Rightarrow> Some (Inr None)
              | Some (tileBytes, tileHeight, tileWidth) \<Rightarrow>
                  (if (width self + 2) * height' \<noteq> uncompressedLength self then Some (Inr None)
                   else
                     (case write_base (width self) buffer size' tileBytes tileWidth tileHeight
                             yOffset img of
                        Inl e \<Rightarrow> Some (Inl e)
                      | Inr (img1, i, yOffset') \<Rightarrow>
                          (case writeTransparentImage (width self) img1
                                  (py_slice_from buffer (uncompressedLength self))
                                  (length_rec self - uncompressedLength self) of
                             None \<Rightarrow> None
                           | Some (Inl e) \<Rightarrow> Some (Inl e)
                           | Some (Inr img2) \<Rightarrow>
                               (case rle_loop (width self) buffer
                                       (length_rec self - uncompressedLength self)
                                       (img2, 0, 0, uncompressedLength self) of
                                  None \<Rightarrow> None
                                | Some (Inl e) \<Rightarrow> Some (Inl e)
                                | Some (Inr (img3, x, y, i')) \<Rightarrow> Some (Inr (Some img3))))))))"

section \<open>image.py: \<open>read_image\<close>\<close>

text \<open>The \<open>if\<close>/\<open>elif\<close> chain on \<open>self.imgType\<close>; no branch is taken for \<open>ImgType.unknown\<close>.\<close>

definition decode_by_type ::
  "Image \<Rightarrow> rgba list \<Rightarrow> byte list \<Rightarrow> (exn + rgba list option) option" where
  "decode_by_type self img buffer =
     (if imgType self = plain then
        (case read_plain (width self) (height self) buffer img of
           Inl e \<Rightarrow> Some (Inl e)
         | Inr (img', i) \<Rightarrow> Some (Inr (Some img')))
      else if imgType self = isometric then read_isometric self img buffer
      else if imgType self = sprite then
        (case writeTransparentImage (width self) img buffer (length_rec self) of
           None \<Rightarrow> None
         | Some (Inl e) \<Rightarrow> Some (Inl e)
         | Some (Inr img') \<Rightarrow> Some (Inr (Some img')))
      else Some (Inr (Some img)))"

text \<open>
  \<open>read_image\<close> on the contents of the companion .555 file.  The result is the exception
  raised, or \<open>()\<close> for a normal return, with the object as the call leaves it; \<open>None\<close> is a
  call that does not return.
\<close>

definition read_image :: "byte list option \<Rightarrow> Image \<Rightarrow> ((exn + unit) \<times> Image) option" where
  "read_image f2 self =
     (if \<not> verify self then Some (Inl ImageError, self)
      else
        (let img = py_list_mul (py_list_mul [(0, 0, 0, 0)] (width self)) (height self) in
         case read_buffer f2 self of
           Inl e \<Rightarrow> Some (Inl e, self)
         | Inr buffer \<Rightarrow>
             (let self = self\<lparr>image_pil := Some (PILImage_new (width self, height self))\<rparr> in
              case decode_by_type self img buffer of
                None \<Rightarrow> None
              | Some (Inl e) \<Rightarrow> Some (Inl e, self)
              | Some (Inr None) \<Rightarrow> Some (Inr (), self)
              | Some (Inr (Some img')) \<Rightarrow>
                  Some (Inr (),
                    self\<lparr>image_pil := map_option (\<lambda>im. putdata im img') (image_pil self)\<rparr>))))"

section \<open>bitmap.py: the eager reader \<open>read_images\<close>\<close>

text \<open>
  A binary file opened for reading at position \<open>pos\<close>: \<open>read(n)\<close> returns the next
  \<open>n\<close> bytes, or fewer at the end of the file, and moves on by what it returned.
\<close>

definition f_read :: "byte list \<Rightarrow> nat \<Rightarrow> nat \<Rightarrow> byte list \<times> nat" where
  "f_read f pos n = (let bs = take n (drop pos f) in (bs, pos + length bs))"

text \<open>\<open>int.from_bytes(bs, byteorder="little")\<close>, unsigned and with \<open>signed=True\<close>.\<close>

definition from_bytes :: "byte list \<Rightarrow> int" where
  "from_bytes bs = foldr (\<lambda>b acc. uint b + 256 * acc) bs 0"

definition from_bytes_signed :: "byte list \<Rightarrow> int" where
  "from_bytes_signed bs =
     (let v = from_bytes bs; n = 8 * length bs
      in if n \<noteq> 0 \<and> 2 ^ (n - 1) \<le> v then v - 2 ^ n else v)"

text \<open>\<open>pixel.to_bytes(4, "little")\<close> for a pixel below \<open>2 ^ 32\<close>, as \<open>set555Pixel\<close> returns.\<close>

definition to_bytes4 :: "int \<Rightarrow> byte list" where
  "to_bytes4 pixel = map (\<lambda>k. word_of_int (drop_bit (8 * k) pixel)) [0, 1, 2, 3]"

text \<open>The locals that \<open>read_images\<close> reads from one record and uses afterwards.\<close>

record bitmap_record =
  r_offset :: int
  r_length :: int
  r_uncompressed_length :: int
  r_width :: int
  r_height :: int
  r_imgType :: int
  r_flags :: "byte list"
  r_alpha_length :: int

text \<open>
  The reads at the top of the loop body of \<open>read_images\<close>, up to \<open>self.offset = f.tell()\<close>.
  \<open>debug(flags[3])\<close> evaluates \<open>flags[3]\<close> and raises IndexError when the file ends before
  the fourth flag byte.
\<close>

definition read_record :: "byte list \<Rightarrow> nat \<Rightarrow> bool \<Rightarrow> exn + bitmap_record \<times> nat" where
  "read_record f pos includeAlpha =
     (let (b_offset, pos) = f_read f pos 4;
          (b_length, pos) = f_read f pos 4;
          (b_uncompressed, pos) = f_read f pos 4;
          pos = pos + 4;
          (b_invert, pos) = f_read f pos 4;
          (b_width, pos) = f_read f pos 2;
          (b_height, pos) = f_read f pos 2;
          pos = pos + 26;
          (b_type, pos) = f_read f pos 2;
          (b_flags, pos) = f_read f pos 4
      in case py_get b_flags 3 of
           Inl e \<Rightarrow> Inl e
         | Inr flag3 \<Rightarrow>
             (let (b_id, pos) = f_read f pos 1;
                  pos = pos + 7;
                  (alpha_length, pos) =
                    (if includeAlpha then
                       (let (b_alpha_offset, pos) = f_read f pos 4;
                            (b_alpha_length, pos) = f_read f pos 4
                        in (from_bytes b_alpha_length, pos))
                     else (0, pos))
              in Inr (\<lparr>r_offset = from_bytes b_offset, r_length = from_bytes b_length,
                        r_uncompressed_length = from_bytes b_uncompressed,
                        r_width = from_bytes_signed b_width,
                        r_height = from_bytes_signed b_height,
                        r_imgType = from_bytes b_type, r_flags = b_flags,
                        r_alpha_length = alpha_length\<rparr>, pos)))"

text \<open>The plain branch of bitmap.py: the loop variables are the image bytes and \<open>i\<close>.\<close>

definition bitmap_plain_pixel ::
  "int \<Rightarrow> byte list \<Rightarrow> byte list \<times> int \<Rightarrow> exn + byte list \<times> int" where
  "bitmap_plain_pixel w buffer =
     (\<lambda>(img, i).
        case sample buffer i of
          Inl e \<Rightarrow> Inl e
        | Inr colour \<Rightarrow> (let pixel = set555Pixel colour w in Inr (img @ to_bytes4 pixel, i + 2)))"

definition bitmap_plain :: "int \<Rightarrow> int \<Rightarrow> byte list \<Rightarrow> exn + byte list \<times> int" where
  "bitmap_plain w h buffer =
     for_each (py_range w)
       (\<lambda>y. for_each (py_range h) (\<lambda>x. bitmap_plain_pixel w buffer)) ([], 0)"

text \<open>The sprite branch of bitmap.py: the image bytes, x, y and i.\<close>

type_synonym sprite_state = "byte list \<times> int \<times> int \<times> int"

definition sprite_pixel :: "int \<Rightarrow> byte list \<Rightarrow> sprite_state \<Rightarrow> exn + sprite_state" where
  "sprite_pixel w buffer =
     (\<lambda>(img, x, y, i).
        case sample buffer i of
          Inl e \<Rightarrow> Inl e
        | Inr colour \<Rightarrow>
            (let pixel = set555Pixel colour w;
                 img = img @ to_bytes4 pixel;
                 x = x + 1
             in if x \<ge> w then Inr (img, 0, y + 1, i + 2) else Inr (img, x, y, i + 2)))"

function sprite_loop ::
  "int \<Rightarrow> byte list \<Rightarrow> int \<Rightarrow> sprite_state \<Rightarrow> (exn + sprite_state) option" where
  "sprite_loop w buffer len (img, x, y, i) =
     (if i < len then
        (case py_get buffer i of
           Inl e \<Rightarrow> Some (Inl e)
         | Inr c \<Rightarrow>
             (if uint c = 255 then
                (case py_get buffer (i + 1) of
                   Inl e \<Rightarrow> Some (Inl e)
                 | Inr n \<Rightarrow>
                     (case wrap_cursor w (x + uint n) y of
                        None \<Rightarrow> None
                      | Some (x', y') \<Rightarrow>
                          sprite_loop w buffer len
                            (img @ concat (replicate (nat (uint n)) (to_bytes4 0)),
                             x', y', i + 1 + 1)))
              else
                (case for_each (py_range (uint c)) (\<lambda>j. sprite_pixel w buffer)
                        (img, x, y, i + 1) of
                   Inl e \<Rightarrow> Some (Inl e)
                 | Inr s' \<Rightarrow> sprite_loop w buffer len s')))
      else Some (Inr (img, x, y, i)))"
  by pat_completeness auto
termination
proof (relation "measure (\<lambda>(w, buffer, len, img, x, y, i). nat (len - i))")
  show "wf (measure (\<lambda>(w, buffer, len, img, x, y, i). nat (len - i)))"
    by simp
next
  fix w :: int and buffer :: "byte list" and len :: int and img :: "byte list"
    and x y i :: int and n :: byte and x' y' :: int
  assume "i < len"
  then show "((w, buffer, len, img @ concat (replicate (nat (uint n)) (to_bytes4 0)),
        x', y', i + 1 + 1), (w, buffer, len, img, x, y, i))
      \<in> measure (\<lambda>(w, buffer, len, img, x, y, i). nat (len - i))"
    by simp
next
  fix w :: int and buffer :: "byte list" and len :: int and img :: "byte list"
    and x y i :: int and c :: byte and s' :: sprite_state
  assume lt: "i < len"
    and run: "for_each (py_range (uint c)) (\<lambda>j. sprite_pixel w buffer) (img, x, y, i + 1) = Inr s'"
  have step: "for_each ks (\<lambda>j. sprite_pixel w buffer) s = Inr t
      \<Longrightarrow> snd (snd (snd s)) \<le> snd (snd (snd t))" for ks :: "int list" and s t :: sprite_state
  proof (induction ks arbitrary: s)
    case Nil
    then show ?case by simp
  next
    case (Cons k ks)
    from Cons.prems obtain s1 where s1: "sprite_pixel w buffer s = Inr s1"
      and rest: "for_each ks (\<lambda>j. sprite_pixel w buffer) s1 = Inr t"
      by (auto split: sum.splits)
    from s1 have "snd (snd (snd s)) \<le> snd (snd (snd s1))"
      by (auto simp: sprite_pixel_def Let_def split: prod.splits sum.splits if_splits)
    with Cons.IH [OF rest] show ?case by simp
  qed
  from step [OF run] have "i + 1 \<le> snd (snd (snd s'))" by simp
  with lt show "((w, buffer, len, s'), (w, buffer, len, img, x, y, i))
      \<in> measure (\<lambda>(w, buffer, len, img, x, y, i). nat (len - i))"
    by (cases s') auto
qed

declare sprite_loop.simps [simp del]

text \<open>
  The isometric branch of bitmap.py after its two checks.  A derived \<open>size\<close> is the float
  \<open>height / 30\<close> or \<open>height / 40\<close>, and \<open>range(size + (size - 1))\<close> raises TypeError; a
  \<open>size\<close> taken from \<open>flags[3]\<close> is a positive int, the first round of the loops reaches
  \<open>range(halfHeight)\<close> with the float \<open>tileHeight / 2\<close>, and that raises TypeError.  The
  result is \<open>False\<close> where the source logs an error and continues with the next record.
\<close>

definition bitmap_isometric_checks :: "bitmap_record \<Rightarrow> exn + bool" where
  "bitmap_isometric_checks r =
     (case py_get (r_flags r) 3 of
        Inl e \<Rightarrow> Inl e
      | Inr flag3 \<Rightarrow>
          (let size0 = uint flag3;
               size' = (if size0 = 0 then
                          (if r_height r mod isometricTileHeight = 0
                           then r_height r div isometricTileHeight
                           else if r_height r mod isometricLargeTileHeight = 0
                           then r_height r div isometricLargeTileHeight
                           else size0)
                        else size0)
           in if isometricTileHeight * size' \<noteq> r_height r
               \<and> isometricLargeTileHeight * size' \<noteq> r_height r then Inr False
              else if (r_width r + 2) * r_height r \<noteq> r_uncompressed_length r then Inr False
              else Inl TypeError))"

text \<open>
  The tile-size resolution of bitmap.py (lines 133 to 141) on its own: \<open>size\<close> starts as
  \<open>flags[3]\<close> and, when that is 0, is derived from the \<open>height\<close> field of the record,
  where image.py uses \<open>int((self.width + 2) / 2)\<close>.  A derived size is the float
  \<open>height / 30\<close> or \<open>height / 40\<close>, taken where the quotient is a whole number; the
  model gives its value.
\<close>

definition bitmap_size :: "bitmap_record \<Rightarrow> exn + int" where
  "bitmap_size r =
     (case py_get (r_flags r) 3 of
        Inl e \<Rightarrow> Inl e
      | Inr flag3 \<Rightarrow>
          (let size0 = uint flag3
           in if size0 = 0 then
                (if r_height r mod isometricTileHeight = 0
                 then Inr (r_height r div isometricTileHeight)
                 else if r_height r mod isometricLargeTileHeight = 0
                 then Inr (r_height r div isometricLargeTileHeight)
                 else Inr size0)
              else Inr size0))"

text \<open>
  The choice between regular and large tiles of bitmap.py (lines 144 to 154):
  \<open>(tileBytes, tileHeight, tileWidth)\<close>, or \<open>None\<close> where the source logs
  "Unknown tile size" and continues with the next record.
\<close>

definition bitmap_profile :: "bitmap_record \<Rightarrow> exn + (int \<times> int \<times> int) option" where
  "bitmap_profile r =
     (case bitmap_size r of
        Inl e \<Rightarrow> Inl e
      | Inr size' \<Rightarrow>
          (if isometricTileHeight * size' = r_height r then
             Inr (Some (isometricTileBytes, isometricTileHeight, isometricTileWidth))
           else if isometricLargeTileHeight * size' = r_height r then
             Inr (Some (isometricLargeTileBytes, isometricLargeTileHeight,
                        isometricLargeTileWidth))
           else Inr None))"

text \<open>
  The rest of the loop body for a record that is not the first: the pixel data is read
  from the companion file and decoded by type.  \<open>frombuffer\<close> stands for PIL's
  \<open>Image.frombuffer("RGBA", (width, height), image, "raw")\<close>, which is not code of this
  repository.  The result is the list \<open>self.images\<close>; \<open>None\<close> is a cursor wrap that
  does not end.
\<close>

definition decode_record ::
  "(int \<times> int \<Rightarrow> byte list \<Rightarrow> exn + 'img) \<Rightarrow> byte list option \<Rightarrow> bitmap_record
    \<Rightarrow> 'img list \<Rightarrow> (exn + 'img list) option" where
  "decode_record frombuffer f2 r images =
     (case f2 of
        None \<Rightarrow> Some (Inl OSError)
      | Some file \<Rightarrow>
          (let data_length = r_length r + r_alpha_length r in
           if data_length \<le> 0 then Some (Inr images)
           else
             (case py_get (r_flags r) 0 of
                Inl e \<Rightarrow> Some (Inl e)
              | Inr flag0 \<Rightarrow>
                  (case seek_read file (r_offset r - uint flag0) data_length of
                     Inl e \<Rightarrow> Some (Inl e)
                   | Inr buffer \<Rightarrow>
                       (if r_imgType r \<in> set [0, 1, 10, 12, 13] then
                          (case bitmap_plain (r_width r) (r_height r) buffer of
                             Inl e \<Rightarrow> Some (Inl e)
                           | Inr (img, i) \<Rightarrow>
                               (case frombuffer (r_width r, r_height r) img of
                                  Inl e \<Rightarrow> Some (Inl e)
                                | Inr im \<Rightarrow> Some (Inr (images @ [im]))))
                        else if r_imgType r = 30 then
                          (case bitmap_isometric_checks r of
                             Inl e \<Rightarrow> Some (Inl e)
                           | Inr go_on \<Rightarrow> Some (Inr images))
                        else if r_imgType r \<in> set [256, 257, 276] then
                          (case sprite_loop (r_width r) buffer (r_length r) ([], 0, 0, 0) of
                             None \<Rightarrow> None
                           | Some (Inl e) \<Rightarrow> Some (Inl e)
                           | Some (Inr (img, x, y, i)) \<Rightarrow>
                               (case frombuffer (r_width r, r_height r) img of
                                  Inl e \<Rightarrow> Some (Inl e)
                                | Inr im \<Rightarrow> Some (Inr (images @ [im]))))
                        else Some (Inl ValueError))))))"

text \<open>
  The \<open>for record in range(self.numImages)\<close> loop over the metadata file \<open>f\<close>.  The
  state is \<open>self.offset\<close> and \<open>self.images\<close>; the result is that state when the loop
  ends or an exception leaves it, with the exception if there is one.
\<close>

fun read_images_loop ::
  "(int \<times> int \<Rightarrow> byte list \<Rightarrow> exn + 'img) \<Rightarrow> byte list \<Rightarrow> byte list option \<Rightarrow> bool
    \<Rightarrow> int list \<Rightarrow> nat \<times> 'img list \<Rightarrow> (exn option \<times> nat \<times> 'img list) option" where
  "read_images_loop frombuffer f f2 includeAlpha [] (pos, images) = Some (None, pos, images)"
| "read_images_loop frombuffer f f2 includeAlpha (record # rest) (pos, images) =
     (case read_record f pos includeAlpha of
        Inl e \<Rightarrow> Some (Some e, pos, images)
      | Inr (r, pos') \<Rightarrow>
          (if record = 0 then read_images_loop frombuffer f f2 includeAlpha rest (pos', images)
           else
             (case decode_record frombuffer f2 r images of
                None \<Rightarrow> None
              | Some (Inl e) \<Rightarrow> Some (Some e, pos', images)
              | Some (Inr images') \<Rightarrow>
                  read_images_loop frombuffer f f2 includeAlpha rest (pos', images'))))"

text \<open>The attributes of a \<open>Bitmap\<close> object that \<open>read_images\<close> uses.\<close>

record 'img Bitmap =
  offset :: nat
  numImages :: int
  images :: "'img list"

definition read_images ::
  "(int \<times> int \<Rightarrow> byte list \<Rightarrow> exn + 'img) \<Rightarrow> byte list \<Rightarrow> byte list option \<Rightarrow> bool
    \<Rightarrow> 'img Bitmap \<Rightarrow> (exn option \<times> 'img Bitmap) option" where
  "read_images frombuffer f f2 includeAlpha self =
     (case read_images_loop frombuffer f f2 includeAlpha (py_range (numImages self))
             (offset self, images self) of
        None \<Rightarrow> None
      | Some (e, pos, images') \<Rightarrow> Some (e, self\<lparr>offset := pos, images := images'\<rparr>))"

section \<open>Vocabulary of the statements\<close>

text \<open>The \<open>k\<close>-th little-endian 16-bit sample of a byte slice.\<close>

definition le16 :: "byte list \<Rightarrow> nat \<Rightarrow> int" where
  "le16 buffer k = uint (buffer ! (2 * k)) OR push_bit 8 (uint (buffer ! (2 * k + 1)))"

text \<open>
  The state of the plain decoder after \<open>n\<close> pixels in row-major order: \<open>2 * n\<close> bytes
  are consumed, the first \<open>n\<close> cells hold the decoded samples and the others are untouched.
\<close>

definition plain_inv ::
  "int \<Rightarrow> byte list \<Rightarrow> rgba list \<Rightarrow> nat \<Rightarrow> rgba list \<times> int \<Rightarrow> bool" where
  "plain_inv w buffer img n =
     (\<lambda>(img', i). i = int (2 * n) \<and> length img' = length img \<and>
        (\<forall>j < length img. img' ! j =
           (if j < n then pixel_tuple (set555Pixel (le16 buffer j) w) else img ! j)))"

text \<open>A cursor of the run-length decoder inside a row of a grid of width \<open>w\<close>.\<close>

definition cursor_ok :: "int \<Rightarrow> int \<Rightarrow> int \<Rightarrow> bool" where
  "cursor_ok w x y \<longleftrightarrow> 0 \<le> x \<and> x < w \<and> 0 \<le> y"

text \<open>
  The relation between two runs of the run-length decoder on the same stream, one over
  the grid \<open>a\<close> and one over the grid \<open>b\<close>: a cell is either written in both runs, with
  the same opaque value, or it is as it was in both.
\<close>

definition overlaid :: "rgba list \<Rightarrow> rgba list \<Rightarrow> rgba list \<Rightarrow> rgba list \<Rightarrow> bool" where
  "overlaid a b a' b' \<longleftrightarrow>
     length a' = length a \<and> length b' = length a \<and>
     (\<forall>j < length a.
        (a' ! j = b' ! j \<and> snd (snd (snd (b' ! j))) = 255) \<or> (a' ! j = a ! j \<and> b' ! j = b ! j))"

section \<open>Auxiliary facts\<close>

lemmas tile_consts =
  isometricTileWidth_def isometricTileHeight_def isometricTileBytes_def
  isometricLargeTileWidth_def isometricLargeTileHeight_def isometricLargeTileBytes_def

lemma blank_canvas:
  assumes "0 < w" and "0 < h"
  shows "py_list_mul (py_list_mul [t] w) h = replicate (nat (w * h)) t"
proof -
  have one: "concat (replicate n [t]) = replicate n t" for n
    by (induction n) simp_all
  have rows: "concat (replicate m (replicate n t)) = replicate (m * n) t" for m n
    by (induction m) (simp_all add: replicate_add)
  have "nat (w * h) = nat h * nat w"
    using assms by (simp add: nat_mult_distrib mult.commute)
  then show ?thesis
    by (simp add: py_list_mul_def one rows)
qed

lemma putdata_new:
  assumes "length data = nat (w * h)"
  shows "putdata (PILImage_new (w, h)) data = ((w, h), data)"
  using assms by (simp add: putdata_def PILImage_new_def)

lemma get_img_type_unknown:
  assumes "code \<notin> {0, 1, 10, 12, 13, 30, 256, 257, 276}"
  shows "get_img_type code = unknown"
  using assms by (simp add: get_img_type_def types_def)

text \<open>A loop invariant rule for \<open>for_each\<close>: the body never raises while the invariant holds.\<close>

lemma for_each_invariant:
  assumes "I 0 s"
    and "\<And>k t. k < length ks \<Longrightarrow> I k t \<Longrightarrow> \<exists>t'. body (ks ! k) t = Inr t' \<and> I (Suc k) t'"
  shows "\<exists>t. for_each ks body s = Inr t \<and> I (length ks) t"
  using assms
proof (induction ks arbitrary: s I)
  case Nil
  then show ?case by simp
next
  case (Cons a ks)
  from Cons.prems(2) [of 0 s] Cons.prems(1)
  obtain s1 where s1: "body a s = Inr s1" and i1: "I (Suc 0) s1" by auto
  have "\<exists>t. for_each ks body s1 = Inr t \<and> (\<lambda>k. I (Suc k)) (length ks) t"
  proof (rule Cons.IH)
    show "I (Suc 0) s1" by (rule i1)
  next
    fix k t assume "k < length ks" "I (Suc k) t"
    then show "\<exists>t'. body (ks ! k) t = Inr t' \<and> I (Suc (Suc k)) t'"
      using Cons.prems(2) [of "Suc k" t] by simp
  qed
  then show ?case using s1 by simp
qed

lemma py_get_nat: "k < length xs \<Longrightarrow> py_get xs (int k) = Inr (xs ! k)"
  by (simp add: py_get_def py_index_def)

lemma py_set_nat: "k < length xs \<Longrightarrow> py_set xs (int k) v = Inr (xs[k := v])"
  by (simp add: py_set_def py_index_def)

lemma sample_nat:
  assumes "2 * k + 1 < length buffer"
  shows "sample buffer (int (2 * k)) = Inr (le16 buffer k)"
proof -
  have a: "py_get buffer (int (2 * k)) = Inr (buffer ! (2 * k))"
    using assms by (intro py_get_nat) simp
  have b: "py_get buffer (int (2 * k) + 1) = Inr (buffer ! (2 * k + 1))"
    using py_get_nat [of "2 * k + 1" buffer] assms by (simp add: add.commute)
  show ?thesis
    unfolding sample_def a b by (simp add: le16_def)
qed

lemma plain_pixel_step:
  assumes inv: "plain_inv w buffer img n t"
    and n: "n < length img" and buf: "2 * length img \<le> length buffer"
    and pos: "y * w + x = int n"
  shows "\<exists>t'. plain_pixel w buffer y x t = Inr t' \<and> plain_inv w buffer img (Suc n) t'"
proof -
  obtain img' i where t: "t = (img', i)" by (cases t)
  from inv t have i: "i = int (2 * n)" and len: "length img' = length img"
    and cells: "\<forall>j < length img. img' ! j =
           (if j < n then pixel_tuple (set555Pixel (le16 buffer j) w) else img ! j)"
    by (simp_all add: plain_inv_def)
  have s: "sample buffer i = Inr (le16 buffer n)"
    unfolding i using n buf by (intro sample_nat) simp
  have w: "py_set img' (y * w + x) v = Inr (img'[n := v])" for v
    unfolding pos using n len by (intro py_set_nat) simp
  have "plain_pixel w buffer y x t
      = Inr (img'[n := pixel_tuple (set555Pixel (le16 buffer n) w)], i + 2)"
    by (simp add: plain_pixel_def t s w)
  moreover have "plain_inv w buffer img (Suc n)
      (img'[n := pixel_tuple (set555Pixel (le16 buffer n) w)], i + 2)"
    using i len cells n by (auto simp: plain_inv_def nth_list_update less_Suc_eq)
  ultimately show ?thesis by simp
qed

lemma plain_row:
  assumes inv: "plain_inv w buffer img (Y * W) t"
    and W: "w = int W" and Y: "Suc Y * W \<le> length img"
    and buf: "2 * length img \<le> length buffer"
  shows "\<exists>t'. for_each (py_range w) (\<lambda>x. plain_pixel w buffer (int Y) x) t = Inr t'
     \<and> plain_inv w buffer img (Suc Y * W) t'"
proof -
  have "\<exists>t'. for_each (py_range w) (\<lambda>x. plain_pixel w buffer (int Y) x) t = Inr t'
     \<and> (\<lambda>k. plain_inv w buffer img (Y * W + k)) (length (py_range w)) t'"
  proof (rule for_each_invariant [where I = "\<lambda>k. plain_inv w buffer img (Y * W + k)"])
    show "plain_inv w buffer img (Y * W + 0) t" using inv by simp
  next
    fix k u
    assume k: "k < length (py_range w)" and u: "plain_inv w buffer img (Y * W + k) u"
    from k have kW: "k < W" by (simp add: py_range_def W)
    then have nth: "py_range w ! k = int k" by (simp add: py_range_def W)
    have lt: "Y * W + k < length img" using kW Y by simp
    have pos: "int Y * w + int k = int (Y * W + k)" by (simp add: W)
    show "\<exists>t'. plain_pixel w buffer (int Y) (py_range w ! k) u = Inr t'
        \<and> plain_inv w buffer img (Y * W + Suc k) t'"
      using plain_pixel_step [OF u lt buf pos] by (simp add: nth)
  qed
  then show ?thesis by (simp add: py_range_def W add.commute)
qed

lemma read_plain_inv:
  assumes W: "w = int W" and H: "h = int H" and len: "length img = H * W"
    and buf: "2 * length img \<le> length buffer"
  shows "\<exists>t'. read_plain w h buffer img = Inr t' \<and> plain_inv w buffer img (H * W) t'"
proof -
  have "\<exists>t'. for_each (py_range h)
       (\<lambda>y. for_each (py_range w) (\<lambda>x. plain_pixel w buffer y x)) (img, 0) = Inr t'
     \<and> (\<lambda>Y. plain_inv w buffer img (Y * W)) (length (py_range h)) t'"
  proof (rule for_each_invariant [where I = "\<lambda>Y. plain_inv w buffer img (Y * W)"])
    show "plain_inv w buffer img (0 * W) (img, 0)" by (simp add: plain_inv_def)
  next
    fix k u
    assume k: "k < length (py_range h)" and u: "plain_inv w buffer img (k * W) u"
    from k have kH: "k < H" by (simp add: py_range_def H)
    then have nth: "py_range h ! k = int k" by (simp add: py_range_def H)
    have "Suc k \<le> H" using kH by simp
    then have "Suc k * W \<le> H * W" by (rule mult_le_mono1)
    then have fit: "Suc k * W \<le> length img" using len by simp
    show "\<exists>t'. for_each (py_range w) (\<lambda>x. plain_pixel w buffer (py_range h ! k) x) u = Inr t'
        \<and> plain_inv w buffer img (Suc k * W) t'"
      unfolding nth by (rule plain_row [OF u W fit buf])
  qed
  then show ?thesis by (simp add: read_plain_def py_range_def H)
qed

text \<open>Every decoded pixel is opaque, whatever the sample.\<close>

lemma set555Pixel_alpha: "drop_bit 24 (set555Pixel c w) = 255"
  by (simp add: set555Pixel_def Let_def)

lemma pixel_tuple_alpha: "snd (snd (snd (pixel_tuple (set555Pixel c w)))) = 255"
  by (simp add: pixel_tuple_def set555Pixel_alpha)

lemma opaque_pixel_in_row:
  assumes "sample buffer i = Inr c" and "0 \<le> x" and "x + 1 < w" and "nat x < length img"
  shows "opaque_pixel w buffer (img, x, 0, i)
     = Inr (img[nat x := pixel_tuple (set555Pixel c w)], x + 1, 0, i + 2)"
  using assms by (simp add: opaque_pixel_def py_set_def py_index_def)

lemma wrap_cursor_5:
  assumes "5 \<le> w"
  shows "wrap_cursor w 5 0 = Some (if w = 5 then (0, 1) else (5, 0))"
proof (cases "w = 5")
  case True
  have "wrap_cursor 5 5 0 = wrap_cursor 5 0 1"
    by (subst wrap_cursor.simps) simp
  also have "\<dots> = Some (0, 1)"
    by (subst wrap_cursor.simps) simp
  finally show ?thesis using True by simp
next
  case False
  with assms have "\<not> w \<le> 5" by simp
  then show ?thesis using False by (subst wrap_cursor.simps) simp
qed

text \<open>The cursor wrap ends for a positive width.\<close>

lemma wrap_cursor_total:
  assumes "0 < w" and "0 \<le> x"
  shows "wrap_cursor w x y = Some (x mod w, y + x div w)"
  using assms(2)
proof (induction "nat x" arbitrary: x y rule: less_induct)
  case less
  show ?case
  proof (cases "w \<le> x")
    case True
    have "nat (x - w) < nat x" using True assms(1) by simp
    moreover have "0 \<le> x - w" using True by simp
    ultimately have "wrap_cursor w (x - w) (y + 1)
        = Some ((x - w) mod w, y + 1 + (x - w) div w)"
      by (rule less.hyps)
    moreover have "(x - w) mod w = x mod w" by simp
    moreover have "(x - w) div w = x div w - 1"
      using assms(1) div_add_self2 [of w "x - w"] by simp
    ultimately show ?thesis
      using True by (subst wrap_cursor.simps) simp
  next
    case False
    then show ?thesis
      using less.prems by (subst wrap_cursor.simps) simp
  qed
qed

lemma wrap_cursor_ok:
  assumes "0 < w" and "0 \<le> x" and "0 \<le> y" and "wrap_cursor w x y = Some (x', y')"
  shows "cursor_ok w x' y' \<and> y' * w + x' = y * w + x"
proof -
  from assms(4) wrap_cursor_total [OF assms(1,2), of y]
  have x': "x' = x mod w" and y': "y' = y + x div w" by simp_all
  have "0 \<le> x div w" using assms(1,2) by (simp add: pos_imp_zdiv_nonneg_iff)
  then show ?thesis
    using assms(1,3) by (simp add: cursor_ok_def x' y' algebra_simps)
qed

text \<open>What one opaque pixel does when it does not raise.\<close>

lemma opaque_pixel_Inr:
  assumes "opaque_pixel w buffer (img, x, y, i) = Inr (img', x', y', i')"
    and "cursor_ok w x y"
  shows "\<exists>c. sample buffer i = Inr c
      \<and> nat (y * w + x) < length img
      \<and> img' = img[nat (y * w + x) := pixel_tuple (set555Pixel c w)]
      \<and> i' = i + 2 \<and> cursor_ok w x' y' \<and> y' * w + x' = y * w + x + 1"
proof -
  from assms(2) have nn: "0 \<le> y * w + x"
    by (simp add: cursor_ok_def)
  from assms(1) obtain c where c: "sample buffer i = Inr c"
    by (auto simp: opaque_pixel_def split: sum.splits)
  from assms(1) c obtain im where
    im: "py_set img (y * w + x) (pixel_tuple (set555Pixel c w)) = Inr im"
    by (auto simp: opaque_pixel_def Let_def split: sum.splits)
  from im nn have lt: "nat (y * w + x) < length img"
    and im': "im = img[nat (y * w + x) := pixel_tuple (set555Pixel c w)]"
    by (auto simp: py_set_def py_index_def split: if_splits)
  from assms(1) c im have rest: "img' = im" "i' = i + 2"
     "(x', y') = (if x + 1 \<ge> w then (0, y + 1) else (x + 1, y))"
    by (auto simp: opaque_pixel_def Let_def split: if_splits)
  have "cursor_ok w x' y' \<and> y' * w + x' = y * w + x + 1"
    using rest(3) assms(2) by (auto simp: cursor_ok_def algebra_simps split: if_splits)
  with c lt im' rest show ?thesis by simp
qed

lemma run_frame:
  assumes "for_each ks (\<lambda>j. opaque_pixel w buffer) (img, x, y, i) = Inr (img', x', y', i')"
    and "cursor_ok w x y"
  shows "cursor_ok w x' y' \<and> length img' = length img
     \<and> y' * w + x' = y * w + x + int (length ks)
     \<and> i' = i + 2 * int (length ks)
     \<and> (\<forall>j. j < nat (y * w + x) \<longrightarrow> img' ! j = img ! j)"
  using assms
proof (induction ks arbitrary: img x y i)
  case Nil
  then show ?case by simp
next
  case (Cons k ks)
  from Cons.prems(1) obtain im1 x1 y1 i1 where
    one: "opaque_pixel w buffer (img, x, y, i) = Inr (im1, x1, y1, i1)"
    and rest: "for_each ks (\<lambda>j. opaque_pixel w buffer) (im1, x1, y1, i1) = Inr (img', x', y', i')"
    by (auto split: sum.splits)
  from opaque_pixel_Inr [OF one Cons.prems(2)] obtain c where
    lt: "nat (y * w + x) < length img"
    and im1: "im1 = img[nat (y * w + x) := pixel_tuple (set555Pixel c w)]"
    and i1: "i1 = i + 2" and ok1: "cursor_ok w x1 y1" and p1: "y1 * w + x1 = y * w + x + 1"
    by blast
  from Cons.IH [OF rest ok1] have
    ih: "cursor_ok w x' y'" "length img' = length im1"
      "y' * w + x' = y1 * w + x1 + int (length ks)" "i' = i1 + 2 * int (length ks)"
      "\<forall>j. j < nat (y1 * w + x1) \<longrightarrow> img' ! j = im1 ! j"
    by simp_all
  have "img' ! j = img ! j" if "j < nat (y * w + x)" for j
  proof -
    from that have "j < nat (y1 * w + x1)" using p1 by simp
    with ih(5) have "img' ! j = im1 ! j" by simp
    also have "\<dots> = img ! j" using that by (simp add: im1)
    finally show ?thesis .
  qed
  then show ?case
    using ih p1 i1 by (simp add: im1)
qed

lemma run_replay:
  assumes "for_each ks (\<lambda>j. opaque_pixel w buffer) (img, x, y, i) = Inr (img', x', y', i')"
    and "cursor_ok w x y"
    and "length g = length img"
    and "\<forall>j. nat (y * w + x) \<le> j \<and> j < nat (y' * w + x') \<longrightarrow> g ! j = img' ! j"
  shows "for_each ks (\<lambda>j. opaque_pixel w buffer) (g, x, y, i) = Inr (g, x', y', i')"
  using assms
proof (induction ks arbitrary: img x y i)
  case Nil
  then show ?case by simp
next
  case (Cons k ks)
  from Cons.prems(1) obtain im1 x1 y1 i1 where
    one: "opaque_pixel w buffer (img, x, y, i) = Inr (im1, x1, y1, i1)"
    and rest: "for_each ks (\<lambda>j. opaque_pixel w buffer) (im1, x1, y1, i1) = Inr (img', x', y', i')"
    by (auto split: sum.splits)
  from opaque_pixel_Inr [OF one Cons.prems(2)] obtain c where
    c: "sample buffer i = Inr c"
    and lt: "nat (y * w + x) < length img"
    and im1: "im1 = img[nat (y * w + x) := pixel_tuple (set555Pixel c w)]"
    and i1: "i1 = i + 2" and ok1: "cursor_ok w x1 y1" and p1: "y1 * w + x1 = y * w + x + 1"
    by blast
  from Cons.prems(2) have nn: "0 \<le> y * w + x" by (simp add: cursor_ok_def)
  from run_frame [OF rest ok1] have
    fr: "y' * w + x' = y1 * w + x1 + int (length ks)"
      "\<forall>j. j < nat (y1 * w + x1) \<longrightarrow> img' ! j = im1 ! j"
    by simp_all
  have "nat (y * w + x) < nat (y1 * w + x1)" using p1 nn by simp
  with fr(2) have "img' ! nat (y * w + x) = im1 ! nat (y * w + x)" by simp
  also have "\<dots> = pixel_tuple (set555Pixel c w)" using lt by (simp add: im1)
  finally have v: "img' ! nat (y * w + x) = pixel_tuple (set555Pixel c w)" .
  have "nat (y * w + x) < nat (y' * w + x')" using fr(1) p1 nn by simp
  with Cons.prems(4) v have "g ! nat (y * w + x) = pixel_tuple (set555Pixel c w)" by simp
  then have same: "g[nat (y * w + x) := pixel_tuple (set555Pixel c w)] = g"
    by (metis list_update_id)
  have set_g: "py_set g (y * w + x) (pixel_tuple (set555Pixel c w)) = Inr g"
    using lt nn Cons.prems(3) same by (simp add: py_set_def py_index_def)
  have set_i: "py_set img (y * w + x) (pixel_tuple (set555Pixel c w)) = Inr im1"
    using lt nn im1 by (simp add: py_set_def py_index_def)
  have one_g: "opaque_pixel w buffer (g, x, y, i) = Inr (g, x1, y1, i1)"
    using one by (simp add: opaque_pixel_def c set_g set_i Let_def split: if_splits)
  have "for_each ks (\<lambda>j. opaque_pixel w buffer) (g, x1, y1, i1) = Inr (g, x', y', i')"
  proof (rule Cons.IH [OF rest ok1])
    show "length g = length im1" using Cons.prems(3) by (simp add: im1)
    show "\<forall>j. nat (y1 * w + x1) \<le> j \<and> j < nat (y' * w + x') \<longrightarrow> g ! j = img' ! j"
    proof (intro allI impI)
      fix j assume j: "nat (y1 * w + x1) \<le> j \<and> j < nat (y' * w + x')"
      then have "nat (y * w + x) \<le> j" unfolding p1 using nn by linarith
      with j Cons.prems(4) show "g ! j = img' ! j" by simp
    qed
  qed
  with one_g show ?case by simp
qed

text \<open>The three ways the decoding loop goes on, and the facts it keeps.\<close>

lemma rle_loop_stop:
  "\<not> i < L \<Longrightarrow> rle_loop w buffer L (img, x, y, i) = Some (Inr (img, x, y, i))"
  by (subst rle_loop.simps) simp

lemma rle_loop_skip:
  "i < L \<Longrightarrow> py_get buffer i = Inr c \<Longrightarrow> uint c = 255 \<Longrightarrow> py_get buffer (i + 1) = Inr n
   \<Longrightarrow> wrap_cursor w (x + uint n) y = Some (x', y')
   \<Longrightarrow> rle_loop w buffer L (img, x, y, i) = rle_loop w buffer L (img, x', y', i + 1 + 1)"
  by (subst rle_loop.simps) simp

lemma rle_loop_run:
  "i < L \<Longrightarrow> py_get buffer i = Inr c \<Longrightarrow> uint c \<noteq> 255
   \<Longrightarrow> opaque_run w buffer (uint c) (img, x, y, i + 1) = Inr s'
   \<Longrightarrow> rle_loop w buffer L (img, x, y, i) = rle_loop w buffer L s'"
  by (subst rle_loop.simps) simp

lemma rle_loop_Inr_cases:
  assumes "rle_loop w buffer L (img, x, y, i) = Some (Inr t)"
  obtains (stop) "\<not> i < L" and "t = (img, x, y, i)"
  | (skip) c n x' y' where "i < L" and "py_get buffer i = Inr c" and "uint c = 255"
      and "py_get buffer (i + 1) = Inr n" and "wrap_cursor w (x + uint n) y = Some (x', y')"
      and "rle_loop w buffer L (img, x', y', i + 1 + 1) = Some (Inr t)"
  | (run) c s' where "i < L" and "py_get buffer i = Inr c" and "uint c \<noteq> 255"
      and "opaque_run w buffer (uint c) (img, x, y, i + 1) = Inr s'"
      and "rle_loop w buffer L s' = Some (Inr t)"
  using assms
  by (subst (asm) rle_loop.simps) (auto split: if_splits sum.splits option.splits)

lemma uint_byte_nonneg: "0 \<le> uint (n :: byte)"
  by simp

lemma loop_frame:
  assumes "rle_loop w buffer L (img, x, y, i) = Some (Inr (img', x', y', i'))"
    and "0 < w" and "cursor_ok w x y"
  shows "cursor_ok w x' y' \<and> length img' = length img
     \<and> y * w + x \<le> y' * w + x'
     \<and> (\<forall>j. j < nat (y * w + x) \<longrightarrow> img' ! j = img ! j)"
  using assms
proof (induction w buffer L "(img, x, y, i)" arbitrary: img x y i rule: rle_loop.induct)
  case (1 w buffer L img x y i)
  from "1.prems"(1) show ?case
  proof (cases rule: rle_loop_Inr_cases)
    case stop
    then show ?thesis using "1.prems"(3) by simp
  next
    case (skip c n x1 y1)
    have nn: "0 \<le> x + uint n" using "1.prems"(3) by (simp add: cursor_ok_def)
    have y0: "0 \<le> y" using "1.prems"(3) by (simp add: cursor_ok_def)
    from wrap_cursor_ok [OF "1.prems"(2) nn y0 skip(5)]
    have ok1: "cursor_ok w x1 y1" and p1: "y1 * w + x1 = y * w + (x + uint n)" by simp_all
    from "1.hyps"(1) [OF skip(1,2,3,4,5) refl skip(6) "1.prems"(2) ok1]
    have ih: "cursor_ok w x' y'" "length img' = length img" "y1 * w + x1 \<le> y' * w + x'"
      "\<forall>j. j < nat (y1 * w + x1) \<longrightarrow> img' ! j = img ! j" by simp_all
    have le: "y * w + x \<le> y1 * w + x1" using p1 by simp
    have "img' ! j = img ! j" if "j < nat (y * w + x)" for j
    proof -
      from that le have "j < nat (y1 * w + x1)" by linarith
      with ih(4) show ?thesis by simp
    qed
    with ih le show ?thesis by simp
  next
    case (run c s')
    obtain im1 x1 y1 i1 where s': "s' = (im1, x1, y1, i1)" by (cases s') auto
    from run(4) have fe: "for_each (py_range (uint c)) (\<lambda>j. opaque_pixel w buffer) (img, x, y, i + 1)
        = Inr (im1, x1, y1, i1)" by (simp add: opaque_run_def s')
    from run_frame [OF fe "1.prems"(3)]
    have fr: "cursor_ok w x1 y1" "length im1 = length img"
      "y1 * w + x1 = y * w + x + int (length (py_range (uint c)))"
      "\<forall>j. j < nat (y * w + x) \<longrightarrow> im1 ! j = img ! j" by simp_all
    have run4: "opaque_run w buffer (uint c) (img, x, y, i + 1) = Inr (im1, x1, y1, i1)"
      and run5: "rle_loop w buffer L (im1, x1, y1, i1) = Some (Inr (img', x', y', i'))"
      using run(4,5) s' by simp_all
    from "1.hyps"(2) [OF run(1,2,3) run4 run5 "1.prems"(2) fr(1)]
    have ih: "cursor_ok w x' y'" "length img' = length im1" "y1 * w + x1 \<le> y' * w + x'"
      "\<forall>j. j < nat (y1 * w + x1) \<longrightarrow> img' ! j = im1 ! j" by simp_all
    have le: "y * w + x \<le> y1 * w + x1" using fr(3) by simp
    have "img' ! j = img ! j" if "j < nat (y * w + x)" for j
    proof -
      from that le have "j < nat (y1 * w + x1)" by linarith
      with ih(4) have "img' ! j = im1 ! j" by simp
      with fr(4) that show ?thesis by simp
    qed
    with ih fr le show ?thesis by simp
  qed
qed

lemma loop_replay:
  assumes "rle_loop w buffer L1 (img, x, y, i) = Some (Inr (f, xf, yf, jf))"
    and "0 < w" and "cursor_ok w x y"
    and "L2 \<le> L1"
    and "length g = length img"
    and "\<forall>j. nat (y * w + x) \<le> j \<longrightarrow> g ! j = f ! j"
  shows "\<exists>x2 y2 i2. rle_loop w buffer L2 (g, x, y, i) = Some (Inr (g, x2, y2, i2))"
  using assms
proof (induction w buffer L1 "(img, x, y, i)" arbitrary: img x y i rule: rle_loop.induct)
  case (1 w buffer L1 img x y i)
  show ?case
  proof (cases "i < L2")
    case False
    then show ?thesis by (simp add: rle_loop_stop)
  next
    case True
    from "1.prems"(1) show ?thesis
    proof (cases rule: rle_loop_Inr_cases)
      case stop
      with True "1.prems"(4) show ?thesis by simp
    next
      case (skip c n x1 y1)
      have nn: "0 \<le> x + uint n" using "1.prems"(3) by (simp add: cursor_ok_def)
      have y0: "0 \<le> y" using "1.prems"(3) by (simp add: cursor_ok_def)
      from wrap_cursor_ok [OF "1.prems"(2) nn y0 skip(5)]
      have ok1: "cursor_ok w x1 y1" and p1: "y1 * w + x1 = y * w + (x + uint n)" by simp_all
      have agree: "\<forall>j. nat (y1 * w + x1) \<le> j \<longrightarrow> g ! j = f ! j"
      proof (intro allI impI)
        fix j assume "nat (y1 * w + x1) \<le> j"
        then have "nat (y * w + x) \<le> j"
          unfolding p1 using uint_byte_nonneg [of n] by linarith
        with "1.prems"(6) show "g ! j = f ! j" by simp
      qed
      from "1.hyps"(1) [OF skip(1,2,3,4,5) refl skip(6) "1.prems"(2) ok1 "1.prems"(4,5) agree]
      obtain x2 y2 i2 where "rle_loop w buffer L2 (g, x1, y1, i + 1 + 1) = Some (Inr (g, x2, y2, i2))"
        by blast
      then show ?thesis
        using rle_loop_skip [OF True skip(2,3,4,5), of g] by simp
    next
      case (run c s')
      obtain im1 x1 y1 i1 where s': "s' = (im1, x1, y1, i1)" by (cases s') auto
      have run4: "opaque_run w buffer (uint c) (img, x, y, i + 1) = Inr (im1, x1, y1, i1)"
        and run5: "rle_loop w buffer L1 (im1, x1, y1, i1) = Some (Inr (f, xf, yf, jf))"
        using run(4,5) s' by simp_all
      from run4 have fe: "for_each (py_range (uint c)) (\<lambda>j. opaque_pixel w buffer)
          (img, x, y, i + 1) = Inr (im1, x1, y1, i1)" by (simp add: opaque_run_def)
      from run_frame [OF fe "1.prems"(3)]
      have fr: "cursor_ok w x1 y1" "length im1 = length img"
        "y1 * w + x1 = y * w + x + int (length (py_range (uint c)))" by simp_all
      from loop_frame [OF run5 "1.prems"(2) fr(1)]
      have later: "\<forall>j. j < nat (y1 * w + x1) \<longrightarrow> f ! j = im1 ! j" by simp
      have "\<forall>j. nat (y * w + x) \<le> j \<and> j < nat (y1 * w + x1) \<longrightarrow> g ! j = im1 ! j"
        using "1.prems"(6) later by simp
      from run_replay [OF fe "1.prems"(3,5) this]
      have run_g: "opaque_run w buffer (uint c) (g, x, y, i + 1) = Inr (g, x1, y1, i1)"
        by (simp add: opaque_run_def)
      have agree: "\<forall>j. nat (y1 * w + x1) \<le> j \<longrightarrow> g ! j = f ! j"
      proof (intro allI impI)
        fix j assume "nat (y1 * w + x1) \<le> j"
        then have "nat (y * w + x) \<le> j" unfolding fr(3) by linarith
        with "1.prems"(6) show "g ! j = f ! j" by simp
      qed
      have len: "length g = length im1" using "1.prems"(5) fr(2) by simp
      from "1.hyps"(2) [OF run(1,2,3) run4 run5 "1.prems"(2) fr(1) "1.prems"(4) len agree]
      obtain x2 y2 i2 where "rle_loop w buffer L2 (g, x1, y1, i1) = Some (Inr (g, x2, y2, i2))"
        by blast
      then show ?thesis
        using rle_loop_run [OF True run(2,3) run_g] by simp
    qed
  qed
qed

text \<open>Reading a slice \<open>buffer[k:]\<close> at \<open>i\<close> is reading the buffer at \<open>i + k\<close>.\<close>

lemma py_get_drop:
  assumes "py_get (drop k buffer) i = Inr c" and "0 \<le> i"
  shows "py_get buffer (i + int k) = Inr c"
  using assms by (auto simp: py_get_def py_index_def nat_add_distrib add.commute split: if_splits)

lemma sample_drop:
  assumes "sample (drop k buffer) i = Inr c" and "0 \<le> i"
  shows "sample buffer (i + int k) = Inr c"
proof -
  from assms(1) obtain lo hi where lo: "py_get (drop k buffer) i = Inr lo"
    and hi: "py_get (drop k buffer) (i + 1) = Inr hi"
    and c: "c = uint lo OR push_bit 8 (uint hi)"
    by (auto simp: sample_def split: sum.splits)
  have "py_get buffer (i + int k) = Inr lo"
    using py_get_drop [OF lo assms(2)] .
  moreover have "py_get buffer (i + int k + 1) = Inr hi"
    using py_get_drop [OF hi] assms(2) by (simp add: add.commute add.left_commute)
  ultimately show ?thesis by (simp add: sample_def c)
qed

lemma opaque_pixel_drop:
  assumes "opaque_pixel w (drop k buffer) (img, x, y, i) = Inr (img', x', y', i')" and "0 \<le> i"
  shows "opaque_pixel w buffer (img, x, y, i + int k) = Inr (img', x', y', i' + int k) \<and> 0 \<le> i'"
proof -
  from assms(1) obtain c where c: "sample (drop k buffer) i = Inr c"
    by (auto simp: opaque_pixel_def split: sum.splits)
  from sample_drop [OF c assms(2)] have c': "sample buffer (i + int k) = Inr c" .
  from assms show ?thesis
    by (auto simp: opaque_pixel_def c c' Let_def split: sum.splits if_splits)
qed

lemma run_drop:
  assumes "for_each ks (\<lambda>j. opaque_pixel w (drop k buffer)) (img, x, y, i) = Inr (img', x', y', i')"
    and "0 \<le> i"
  shows "for_each ks (\<lambda>j. opaque_pixel w buffer) (img, x, y, i + int k)
       = Inr (img', x', y', i' + int k) \<and> 0 \<le> i'"
  using assms
proof (induction ks arbitrary: img x y i)
  case Nil
  then show ?case by simp
next
  case (Cons a ks)
  from Cons.prems(1) obtain im1 x1 y1 i1 where
    one: "opaque_pixel w (drop k buffer) (img, x, y, i) = Inr (im1, x1, y1, i1)"
    and rest: "for_each ks (\<lambda>j. opaque_pixel w (drop k buffer)) (im1, x1, y1, i1)
        = Inr (img', x', y', i')"
    by (auto split: sum.splits)
  from opaque_pixel_drop [OF one Cons.prems(2)]
  have one': "opaque_pixel w buffer (img, x, y, i + int k) = Inr (im1, x1, y1, i1 + int k)"
    and i1: "0 \<le> i1" by simp_all
  from Cons.IH [OF rest i1] one' show ?case by simp
qed

lemma loop_drop:
  assumes "rle_loop w (drop k buffer) L (img, x, y, i) = Some (Inr (img', x', y', i'))"
    and "0 \<le> i"
  shows "rle_loop w buffer (L + int k) (img, x, y, i + int k) = Some (Inr (img', x', y', i' + int k))"
  using assms
proof (induction w "drop k buffer" L "(img, x, y, i)" arbitrary: img x y i rule: rle_loop.induct)
  case (1 w L img x y i)
  from "1.prems"(1) show ?case
  proof (cases rule: rle_loop_Inr_cases)
    case stop
    then show ?thesis by (simp add: rle_loop_stop)
  next
    case (skip c n x1 y1)
    have lt: "i + int k < L + int k" using skip(1) by simp
    have c: "py_get buffer (i + int k) = Inr c"
      using py_get_drop [OF skip(2) "1.prems"(2)] .
    have n: "py_get buffer (i + int k + 1) = Inr n"
      using py_get_drop [OF skip(4)] "1.prems"(2) by (simp add: add.commute add.left_commute)
    have i2: "0 \<le> i + 1 + 1" using "1.prems"(2) by simp
    from "1.hyps"(1) [OF skip(1,2,3,4,5) refl skip(6) i2]
    have "rle_loop w buffer (L + int k) (img, x1, y1, i + 1 + 1 + int k)
        = Some (Inr (img', x', y', i' + int k))" .
    then have "rle_loop w buffer (L + int k) (img, x1, y1, i + int k + 1 + 1)
        = Some (Inr (img', x', y', i' + int k))"
      by (simp only: add.assoc add.commute add.left_commute)
    then show ?thesis
      by (simp only: rle_loop_skip [OF lt c skip(3) n skip(5), of img])
  next
    case (run c s')
    obtain im1 x1 y1 i1 where s': "s' = (im1, x1, y1, i1)" by (cases s') auto
    have run4: "opaque_run w (drop k buffer) (uint c) (img, x, y, i + 1) = Inr (im1, x1, y1, i1)"
      and run5: "rle_loop w (drop k buffer) L (im1, x1, y1, i1) = Some (Inr (img', x', y', i'))"
      using run(4,5) s' by simp_all
    have lt: "i + int k < L + int k" using run(1) by simp
    have c: "py_get buffer (i + int k) = Inr c"
      using py_get_drop [OF run(2) "1.prems"(2)] .
    have i1: "0 \<le> i + 1" using "1.prems"(2) by simp
    from run4 have "for_each (py_range (uint c)) (\<lambda>j. opaque_pixel w (drop k buffer))
        (img, x, y, i + 1) = Inr (im1, x1, y1, i1)" by (simp add: opaque_run_def)
    from run_drop [OF this i1]
    have run': "opaque_run w buffer (uint c) (img, x, y, i + int k + 1) = Inr (im1, x1, y1, i1 + int k)"
      and i1': "0 \<le> i1" by (simp_all add: opaque_run_def add.commute add.left_commute)
    from "1.hyps"(2) [OF run(1,2,3) run4 run5 i1']
    have "rle_loop w buffer (L + int k) (im1, x1, y1, i1 + int k)
        = Some (Inr (img', x', y', i' + int k))" .
    then show ?thesis
      by (simp only: rle_loop_run [OF lt c run(3) run'])
  qed
qed

text \<open>Two runs of the same stream over different grids.\<close>

lemma py_index_less: "py_index n p = Some k \<Longrightarrow> k < n"
  by (auto simp: py_index_def split: if_splits)

lemma opaque_pixel_sim:
  assumes "opaque_pixel w buffer (a', x, y, i) = Inr (a'', x', y', i')"
    and "overlaid a b a' b'"
  shows "\<exists>b''. opaque_pixel w buffer (b', x, y, i) = Inr (b'', x', y', i') \<and> overlaid a b a'' b''"
proof -
  from assms(1) obtain c where c: "sample buffer i = Inr c"
    by (auto simp: opaque_pixel_def split: sum.splits)
  let ?v = "pixel_tuple (set555Pixel c w)"
  from assms(1) c obtain k where k: "py_index (length a') (y * w + x) = Some k"
    and a'': "a'' = a'[k := ?v]"
    by (auto simp: opaque_pixel_def py_set_def Let_def split: sum.splits option.splits if_splits)
  have len: "length b' = length a'" using assms(2) by (simp add: overlaid_def)
  have kb: "py_set b' (y * w + x) ?v = Inr (b'[k := ?v])"
    and ka: "py_set a' (y * w + x) ?v = Inr (a'[k := ?v])"
    using k len by (simp_all add: py_set_def)
  have one: "opaque_pixel w buffer (b', x, y, i) = Inr (b'[k := ?v], x', y', i')"
    using assms(1) by (simp add: opaque_pixel_def c ka kb Let_def split: if_splits)
  have "overlaid a b (a'[k := ?v]) (b'[k := ?v])"
    using assms(2) py_index_less [OF k]
    by (auto simp: overlaid_def nth_list_update pixel_tuple_alpha)
  with one a'' show ?thesis by blast
qed

lemma run_sim:
  assumes "for_each ks (\<lambda>j. opaque_pixel w buffer) (a', x, y, i) = Inr (a'', x', y', i')"
    and "overlaid a b a' b'"
  shows "\<exists>b''. for_each ks (\<lambda>j. opaque_pixel w buffer) (b', x, y, i) = Inr (b'', x', y', i')
      \<and> overlaid a b a'' b''"
  using assms
proof (induction ks arbitrary: a' b' x y i)
  case Nil
  then show ?case by simp
next
  case (Cons k ks)
  from Cons.prems(1) obtain a1 x1 y1 i1 where
    one: "opaque_pixel w buffer (a', x, y, i) = Inr (a1, x1, y1, i1)"
    and rest: "for_each ks (\<lambda>j. opaque_pixel w buffer) (a1, x1, y1, i1) = Inr (a'', x', y', i')"
    by (auto split: sum.splits)
  from opaque_pixel_sim [OF one Cons.prems(2)] obtain b1 where
    one_b: "opaque_pixel w buffer (b', x, y, i) = Inr (b1, x1, y1, i1)"
    and ov: "overlaid a b a1 b1" by blast
  from Cons.IH [OF rest ov] one_b show ?case by simp
qed

lemma loop_sim:
  assumes "rle_loop w buffer L (a', x, y, i) = Some (Inr (fa, xf, yf, jf))"
    and "overlaid a b a' b'"
  shows "\<exists>fb. rle_loop w buffer L (b', x, y, i) = Some (Inr (fb, xf, yf, jf)) \<and> overlaid a b fa fb"
  using assms
proof (induction w buffer L "(a', x, y, i)" arbitrary: a' b' x y i rule: rle_loop.induct)
  case (1 w buffer L a' x y i)
  from "1.prems"(1) show ?case
  proof (cases rule: rle_loop_Inr_cases)
    case stop
    then show ?thesis using "1.prems"(2) by (simp add: rle_loop_stop)
  next
    case (skip c n x1 y1)
    from "1.hyps"(1) [OF skip(1,2,3,4,5) refl skip(6) "1.prems"(2)]
    show ?thesis
      by (simp only: rle_loop_skip [OF skip(1,2,3,4,5), of b'])
  next
    case (run c s')
    obtain a1 x1 y1 i1 where s': "s' = (a1, x1, y1, i1)" by (cases s') auto
    have run4: "opaque_run w buffer (uint c) (a', x, y, i + 1) = Inr (a1, x1, y1, i1)"
      and run5: "rle_loop w buffer L (a1, x1, y1, i1) = Some (Inr (fa, xf, yf, jf))"
      using run(4,5) s' by simp_all
    from run4 have "for_each (py_range (uint c)) (\<lambda>j. opaque_pixel w buffer) (a', x, y, i + 1)
        = Inr (a1, x1, y1, i1)" by (simp add: opaque_run_def)
    from run_sim [OF this "1.prems"(2)] obtain b1 where
      run_b: "opaque_run w buffer (uint c) (b', x, y, i + 1) = Inr (b1, x1, y1, i1)"
      and ov: "overlaid a b a1 b1" by (auto simp: opaque_run_def)
    from "1.hyps"(2) [OF run(1,2,3) run4 run5 ov]
    show ?thesis
      by (simp only: rle_loop_run [OF run(1,2,3) run_b])
  qed
qed

lemma writeTransparentImage_Inr:
  "writeTransparentImage w img buffer L = Some (Inr f)
     \<longleftrightarrow> (\<exists>x y i. rle_loop w buffer L (img, 0, 0, 0) = Some (Inr (f, x, y, i)))"
  by (auto simp: writeTransparentImage_def split: option.splits sum.splits)

lemma overlay_composite:
  assumes "writeTransparentImage w base stream L = Some (Inr final)"
  shows "\<exists>S. writeTransparentImage w (replicate (length base) (0, 0, 0, 0)) stream L = Some (Inr S)
     \<and> length final = length base
     \<and> (\<forall>j < length base. final ! j = (if S ! j = (0, 0, 0, 0) then base ! j else S ! j))"
proof -
  let ?blank = "replicate (length base) (0, 0, 0, 0) :: rgba list"
  from assms obtain x y i where
    run: "rle_loop w stream L (base, 0, 0, 0) = Some (Inr (final, x, y, i))"
    by (auto simp: writeTransparentImage_Inr)
  have "overlaid base ?blank base ?blank" by (simp add: overlaid_def)
  from loop_sim [OF run this] obtain S where
    S: "rle_loop w stream L (?blank, 0, 0, 0) = Some (Inr (S, x, y, i))"
    and ov: "overlaid base ?blank final S" by blast
  have "final ! j = (if S ! j = (0, 0, 0, 0) then base ! j else S ! j)" if "j < length base" for j
  proof -
    from ov that consider "final ! j = S ! j" "snd (snd (snd (S ! j))) = 255"
      | "final ! j = base ! j" "S ! j = ?blank ! j" by (auto simp: overlaid_def)
    then show ?thesis
    proof cases
      case 1
      then have "S ! j \<noteq> (0, 0, 0, 0)" by auto
      with 1 show ?thesis by simp
    next
      case 2
      with that show ?thesis by simp
    qed
  qed
  moreover have "length final = length base" using ov by (simp add: overlaid_def)
  moreover have "writeTransparentImage w ?blank stream L = Some (Inr S)"
    using S by (auto simp: writeTransparentImage_Inr)
  ultimately show ?thesis by blast
qed

lemma second_pass_idle:
  assumes "writeTransparentImage w base (py_slice_from buffer u) (len - u) = Some (Inr img2)"
    and "0 < w" and "0 \<le> u"
  shows "\<exists>x y i. rle_loop w buffer (len - u) (img2, 0, 0, u) = Some (Inr (img2, x, y, i))"
proof -
  let ?k = "nat u"
  have sl: "py_slice_from buffer u = drop ?k buffer"
    using assms(3) by (simp add: py_slice_from_def)
  from assms(1) obtain xf yf jf where
    first: "rle_loop w (drop ?k buffer) (len - u) (base, 0, 0, 0) = Some (Inr (img2, xf, yf, jf))"
    by (auto simp: writeTransparentImage_Inr sl)
  have ok: "cursor_ok w 0 0" using assms(2) by (simp add: cursor_ok_def)
  from loop_frame [OF first assms(2) ok] have len: "length img2 = length base" by simp
  have le: "len - u - u \<le> len - u" using assms(3) by simp
  from loop_replay [OF first assms(2) ok le len]
  obtain x2 y2 i2 where
    "rle_loop w (drop ?k buffer) (len - u - u) (img2, 0, 0, 0) = Some (Inr (img2, x2, y2, i2))"
    by auto
  from loop_drop [OF this]
  have "rle_loop w buffer (len - u - u + int ?k) (img2, 0, 0, 0 + int ?k)
      = Some (Inr (img2, x2, y2, i2 + int ?k))" by simp
  moreover have "len - u - u + int ?k = len - u" "0 + int ?k = u" using assms(3) by simp_all
  ultimately show ?thesis by (simp only:) blast
qed

text \<open>The mosaic pass keeps the number of cells.\<close>

lemma for_each_preserves:
  assumes "for_each ks body s = Inr t" and "P s"
    and "\<And>k u v. body k u = Inr v \<Longrightarrow> P u \<Longrightarrow> P v"
  shows "P t"
  using assms(1,2)
proof (induction ks arbitrary: s)
  case Nil
  then show ?case by simp
next
  case (Cons k ks)
  from Cons.prems(1) obtain s1 where s1: "body k s = Inr s1" and rest: "for_each ks body s1 = Inr t"
    by (auto split: sum.splits)
  from assms(3) [OF s1 Cons.prems(2)] have "P s1" .
  from Cons.IH [OF rest this] show ?case .
qed

lemma py_set_length: "py_set xs i v = Inr ys \<Longrightarrow> length ys = length xs"
  by (auto simp: py_set_def split: option.splits)

lemma tile_pixel_length:
  assumes "tile_pixel w buffer xo yo y x u = Inr v" and "length (fst u) = n"
  shows "length (fst v) = n"
  using assms
  by (auto simp: tile_pixel_def Let_def split: prod.splits sum.splits dest: py_set_length)

lemma tile_rows_length:
  assumes "for_each ys (\<lambda>y. for_each (xs y) (\<lambda>x. tile_pixel w buffer xo yo y x)) s = Inr t"
    and "length (fst s) = n"
  shows "length (fst t) = n"
proof (rule for_each_preserves [OF assms(1), where P = "\<lambda>s. length (fst s) = n"])
  show "length (fst s) = n" by (rule assms(2))
next
  fix k u v
  assume row: "for_each (xs k) (\<lambda>x. tile_pixel w buffer xo yo k x) u = Inr v"
    and u: "length (fst u) = n"
  show "length (fst v) = n"
    by (rule for_each_preserves [OF row, where P = "\<lambda>s. length (fst s) = n"])
      (use u in \<open>auto intro: tile_pixel_length\<close>)
qed

lemma writeIsometricTile_length:
  assumes "writeIsometricTile w img buffer xo yo tw th = Inr img'"
  shows "length img' = length img"
proof -
  from assms obtain s t where
    top: "for_each (py_range (th div 2))
             (\<lambda>y. for_each (py_range2 (th - 2 * (y + 1)) (tw - (th - 2 * (y + 1))))
                    (\<lambda>x. tile_pixel w buffer xo yo y x)) (img, 0) = Inr s"
    and bot: "for_each (py_range2 (th div 2) th)
             (\<lambda>y. for_each (py_range2 (2 * y - th) (tw - (2 * y - th)))
                    (\<lambda>x. tile_pixel w buffer xo yo y x)) s = Inr t"
    and t: "img' = fst t"
    by (auto simp: writeIsometricTile_def Let_def split: sum.splits prod.splits)
  from tile_rows_length [OF top] have "length (fst s) = length img" by simp
  from tile_rows_length [OF bot this] t show ?thesis by simp
qed

lemma write_base_length:
  assumes "write_base w buffer sz tb tw th yo img = Inr (base, i, yo')"
  shows "length base = length img"
proof -
  have tile: "length (fst v) = n"
    if "mosaic_tile w buffer yo1 tb tw th u = Inr v" and "length (fst u) = n" for yo1 u v n
    using that
    by (auto simp: mosaic_tile_def split: prod.splits sum.splits dest: writeIsometricTile_length)
  have row: "length (fst v) = n"
    if r: "mosaic_row w buffer sz tb tw th y u = Inr v" and u: "length (fst u) = n" for y u v n
  proof -
    obtain im i1 yo1 where u': "u = (im, i1, yo1)" by (cases u) auto
    from r u' obtain t where
      fe: "for_each (py_range (if y < sz then y + 1 else 2 * sz - y - 1))
              (\<lambda>x. mosaic_tile w buffer yo1 tb tw th)
              (im, i1, (if y < sz then sz - y - 1 else y - sz + 1) * th) = Inr t"
      and v: "fst v = fst t"
      by (auto simp: mosaic_row_def Let_def split: sum.splits prod.splits)
    have "length (fst t) = n"
      by (rule for_each_preserves [OF fe, where P = "\<lambda>s. length (fst s) = n"])
        (use u u' in \<open>auto intro: tile\<close>)
    with v show ?thesis by simp
  qed
  have "length (fst (base, i, yo')) = length img"
    by (rule for_each_preserves [OF assms [unfolded write_base_def],
          where P = "\<lambda>s. length (fst s) = length img"])
      (auto intro: row)
  then show ?thesis by simp
qed

text \<open>The eager reader adds at most one image for each record after the first.\<close>

lemma decode_record_grows:
  assumes "decode_record frombuffer f2 r imgs = Some (Inr imgs')"
  shows "\<exists>new. imgs' = imgs @ new \<and> length new \<le> 1"
  using assms
  by (auto simp: decode_record_def Let_def
      split: option.splits sum.splits if_splits prod.splits)

lemma read_images_loop_bound:
  assumes "read_images_loop frombuffer f f2 a recs (pos, imgs) = Some (e, pos', imgs')"
  shows "\<exists>new. imgs' = imgs @ new \<and> length new \<le> length (filter (\<lambda>k. k \<noteq> 0) recs)"
  using assms
proof (induction recs arbitrary: pos imgs)
  case Nil
  then show ?case by simp
next
  case (Cons k recs)
  show ?case
  proof (cases "read_record f pos a")
    case (Inl err)
    with Cons.prems show ?thesis by simp
  next
    case (Inr res)
    obtain r p1 where res: "res = (r, p1)" by (cases res) auto
    show ?thesis
    proof (cases "k = 0")
      case True
      with Cons.prems Inr res
      have "read_images_loop frombuffer f f2 a recs (p1, imgs) = Some (e, pos', imgs')"
        by simp
      from Cons.IH [OF this] True show ?thesis by simp
    next
      case False
      show ?thesis
      proof (cases "decode_record frombuffer f2 r imgs")
        case None
        with Cons.prems Inr res False show ?thesis by simp
      next
        case (Some d)
        show ?thesis
        proof (cases d)
          case (Inl err)
          with Cons.prems Inr res False Some show ?thesis by simp
        next
          case (Inr images1)
          from decode_record_grows [OF Some [unfolded Inr]] obtain n1 where
            n1: "images1 = imgs @ n1" "length n1 \<le> 1" by blast
          from Cons.prems \<open>read_record f pos a = Inr res\<close> res False Some Inr
          have "read_images_loop frombuffer f f2 a recs (p1, images1) = Some (e, pos', imgs')"
            by simp
          from Cons.IH [OF this] obtain n2 where
            n2: "imgs' = images1 @ n2" "length n2 \<le> length (filter (\<lambda>k. k \<noteq> 0) recs)"
            by blast
          have "imgs' = imgs @ (n1 @ n2)" using n1 n2 by simp
          moreover have "length (n1 @ n2) \<le> length (filter (\<lambda>k. k \<noteq> 0) (k # recs))"
            using n1 n2 False by simp
          ultimately show ?thesis by blast
        qed
      qed
    qed
  qed
qed

lemma py_range_nonzero: "length (filter (\<lambda>k. k \<noteq> 0) (py_range n)) = nat (n - 1)"
proof -
  have "filter (\<lambda>k. k \<noteq> 0) (map int [0..<m]) = map int [1..<m]" for m
  proof (induction m)
    case 0
    then show ?case by simp
  next
    case (Suc m)
    then show ?case by (cases m) auto
  qed
  then show ?thesis by (simp add: py_range_def)
qed

text \<open>
  The isometric branch of the eager reader goes on past its first check exactly when
  \<open>bitmap_profile\<close> finds a profile.
\<close>

lemma bitmap_isometric_checks_profile:
  "bitmap_isometric_checks r =
     (case bitmap_profile r of
        Inl e \<Rightarrow> Inl e
      | Inr None \<Rightarrow> Inr False
      | Inr (Some p) \<Rightarrow>
          (if (r_width r + 2) * r_height r \<noteq> r_uncompressed_length r then Inr False
           else Inl TypeError))"
  by (auto simp: bitmap_isometric_checks_def bitmap_profile_def bitmap_size_def Let_def
      split: sum.splits)

section \<open>The pixel decoder\<close>

text \<open>
  Claim C2, as stated, fails: sample \<open>0x7FFF\<close> is not decoded to \<open>(248, 248, 248, 255)\<close>.
  The second term of each channel copies the top three bits of the channel into the low
  three bits of the byte, so every channel of \<open>0x7FFF\<close> is \<open>0xF8 OR 0x07 = 255\<close>.
\<close>

theorem set555Pixel_7FFF_not_248:
  "\<not> (pixel_tuple (set555Pixel 0x0000 1) = (0, 0, 0, 255) \<and>
      pixel_tuple (set555Pixel 0x7FFF 1) = (248, 248, 248, 255))"
  by (simp add: set555Pixel_def pixel_tuple_def)

text \<open>
  Claim C2, amended: the pixel decoder maps sample \<open>0x0000\<close> to the quad
  \<open>(0, 0, 0, 255)\<close> and sample \<open>0x7FFF\<close> to the quad \<open>(255, 255, 255, 255)\<close>, whatever its
  second argument.
\<close>

theorem set555Pixel_black_and_white:
  "pixel_tuple (set555Pixel 0x0000 w) = (0, 0, 0, 255) \<and>
   pixel_tuple (set555Pixel 0x7FFF w) = (255, 255, 255, 255)"
  by (simp add: set555Pixel_def pixel_tuple_def)

text \<open>
  Claim C9: for the sample \<open>0xF81F\<close> the pixel decoder returns opaque black,
  \<open>0xff000000\<close>, that is the quad \<open>(0, 0, 0, 255)\<close>, without going through the shift
  table: the shift table applied to \<open>0xF81F\<close> would give \<open>(247, 0, 255, 255)\<close>.
\<close>

theorem set555Pixel_key_colour:
  "set555Pixel 0xF81F w = 0xff000000 \<and>
   pixel_tuple (set555Pixel 0xF81F w) = (0, 0, 0, 255) \<and>
   pixel_tuple (0xff000000
      OR (drop_bit 7 (0xF81F AND 0x7c00) OR drop_bit 12 (0xF81F AND 0x7000))
      OR (push_bit 6 (0xF81F AND 0x3e0) OR push_bit 1 (0xF81F AND 0x380))
      OR (push_bit 19 (0xF81F AND 0x1f) OR push_bit 14 (0xF81F AND 0x1c)))
     = (247, 0, 255, 255)"
  by (simp add: set555Pixel_def pixel_tuple_def)

section \<open>Verification and dispatch in \<open>read_image\<close>\<close>

text \<open>
  Claim C8: a record with \<open>width <= 0\<close>, \<open>height <= 0\<close> or \<open>length <= 0\<close> fails \<open>verify\<close>,
  and \<open>read_image\<close> raises ImageError ("Image verification failed") for it whatever the
  companion file is (present or not, with any contents): the file is not opened, no
  decoder runs and the object is left as it was, so no image is produced.
\<close>

theorem read_image_rejects_unverified:
  assumes "width self \<le> 0 \<or> height self \<le> 0 \<or> length_rec self \<le> 0"
  shows "\<not> verify self \<and> read_image f2 self = Some (Inl ImageError, self)"
  using assms by (auto simp: verify_def read_image_def)

theorem read_image_rejects_unverified_witness:
  "(width \<lparr>offset555 = 0, length_rec = 0, uncompressedLength = 0, width = 2, height = 1,
       imgType = plain, flags = [0, 0, 0, 0], alphaLength = 0, image_pil = None\<rparr> \<le> 0
    \<or> height \<lparr>offset555 = 0, length_rec = 0, uncompressedLength = 0, width = 2, height = 1,
       imgType = plain, flags = [0, 0, 0, 0], alphaLength = 0, image_pil = None\<rparr> \<le> 0
    \<or> length_rec \<lparr>offset555 = 0, length_rec = 0, uncompressedLength = 0, width = 2, height = 1,
       imgType = plain, flags = [0, 0, 0, 0], alphaLength = 0, image_pil = None\<rparr> \<le> 0)
   \<and> read_image (Some [0, 0, 255, 127])
       \<lparr>offset555 = 0, length_rec = 0, uncompressedLength = 0, width = 2, height = 1,
        imgType = plain, flags = [0, 0, 0, 0], alphaLength = 0, image_pil = None\<rparr>
     = Some (Inl ImageError,
       \<lparr>offset555 = 0, length_rec = 0, uncompressedLength = 0, width = 2, height = 1,
        imgType = plain, flags = [0, 0, 0, 0], alphaLength = 0, image_pil = None\<rparr>)"
  using read_image_rejects_unverified
    [of "\<lparr>offset555 = 0, length_rec = 0, uncompressedLength = 0, width = 2, height = 1,
         imgType = plain, flags = [0, 0, 0, 0], alphaLength = 0, image_pil = None\<rparr>"
        "Some [0, 0, 255, 127]"]
  by simp

text \<open>
  Claim C1, as stated, fails in image.py: type code 2 is in no entry of the table, the
  record passes \<open>verify\<close>, and \<open>read_image\<close> returns normally with an all-transparent
  1 x 1 image stored in \<open>self.image\<close>.
\<close>

theorem unknown_type_returns_blank_image:
  "read_image (Some [0])
     \<lparr>offset555 = 0, length_rec = 1, uncompressedLength = 0, width = 1, height = 1,
      imgType = get_img_type 2, flags = [0, 0, 0, 0], alphaLength = 0, image_pil = None\<rparr>
   = Some (Inr (),
     \<lparr>offset555 = 0, length_rec = 1, uncompressedLength = 0, width = 1, height = 1,
      imgType = unknown, flags = [0, 0, 0, 0], alphaLength = 0,
      image_pil = Some ((1, 1), [(0, 0, 0, 0)])\<rparr>)"
  by (simp add: read_image_def decode_by_type_def Let_def verify_def read_buffer_def
      py_get_def py_index_def seek_read_def get_img_type_def types_def py_list_mul_def PILImage_new_def
      putdata_def)

text \<open>
  Claim C1, amended: for every type code outside the table, \<open>get_img_type\<close> raises
  nothing and returns \<open>ImgType.unknown\<close>; for a record of that type that passes \<open>verify\<close>
  and whose byte slice can be read, \<open>read_image\<close> raises nothing, runs no decoder and
  stores the all-transparent width x height image.
\<close>

theorem unknown_type_is_not_an_error:
  assumes "code \<notin> {0, 1, 10, 12, 13, 30, 256, 257, 276}"
    and "imgType self = get_img_type code"
    and "verify self"
    and "read_buffer f2 self = Inr buffer"
  shows "get_img_type code = unknown \<and>
     read_image f2 self =
       Some (Inr (), self\<lparr>image_pil :=
         Some ((width self, height self),
               replicate (nat (width self * height self)) (0, 0, 0, 0))\<rparr>)"
proof -
  have u: "imgType self = unknown"
    using assms(1,2) by (simp add: get_img_type_unknown)
  have pos: "0 < width self" "0 < height self"
    using assms(3) by (auto simp: verify_def split: if_splits)
  have "read_image f2 self =
       Some (Inr (), self\<lparr>image_pil :=
         Some (putdata (PILImage_new (width self, height self))
                 (replicate (nat (width self * height self)) (0, 0, 0, 0)))\<rparr>)"
    using u assms(3,4) by (simp add: read_image_def decode_by_type_def blank_canvas [OF pos])
  then show ?thesis
    using assms(1) by (simp add: get_img_type_unknown putdata_new)
qed

theorem unknown_type_is_not_an_error_witness:
  "(7 :: int) \<notin> {0, 1, 10, 12, 13, 30, 256, 257, 276}
   \<and> verify \<lparr>offset555 = 1, length_rec = 4, uncompressedLength = 0, width = 2, height = 1,
        imgType = unknown, flags = [1, 0, 0, 0], alphaLength = 0, image_pil = None\<rparr>
   \<and> read_buffer (Some [9, 8])
        \<lparr>offset555 = 1, length_rec = 4, uncompressedLength = 0, width = 2, height = 1,
         imgType = unknown, flags = [1, 0, 0, 0], alphaLength = 0, image_pil = None\<rparr>
       = Inr [9, 8]
   \<and> get_img_type 7 = unknown
   \<and> read_image (Some [9, 8])
        \<lparr>offset555 = 1, length_rec = 4, uncompressedLength = 0, width = 2, height = 1,
         imgType = unknown, flags = [1, 0, 0, 0], alphaLength = 0, image_pil = None\<rparr>
       = Some (Inr (),
        \<lparr>offset555 = 1, length_rec = 4, uncompressedLength = 0, width = 2, height = 1,
         imgType = unknown, flags = [1, 0, 0, 0], alphaLength = 0,
         image_pil = Some ((2, 1), [(0, 0, 0, 0), (0, 0, 0, 0)])\<rparr>)"
proof -
  let ?r = "\<lparr>offset555 = 1, length_rec = 4, uncompressedLength = 0, width = 2, height = 1,
         imgType = unknown, flags = [1, 0, 0, 0], alphaLength = 0, image_pil = None\<rparr>"
  have c: "(7 :: int) \<notin> {0, 1, 10, 12, 13, 30, 256, 257, 276}" by simp
  have t: "imgType ?r = get_img_type 7" by (simp add: get_img_type_def types_def)
  have v: "verify ?r" by (simp add: verify_def)
  have b: "read_buffer (Some [9, 8]) ?r = Inr [9, 8]"
    by (simp add: read_buffer_def py_get_def py_index_def seek_read_def)
  have two: "replicate (nat (2 * 1)) (0 :: int, 0 :: int, 0 :: int, 0 :: int)
      = [(0, 0, 0, 0), (0, 0, 0, 0)]"
    by (simp add: numeral_2_eq_2)
  show ?thesis
    using unknown_type_is_not_an_error [OF c t v b] c v b two by simp
qed

section \<open>Isometric geometry\<close>




text \<open>
  Claim C6, as stated, fails: an isometric record of width 58 (base height 30, footprint
  1800) with \<open>uncompressedLength = 5\<close> raises no exception; \<open>read_image\<close> returns
  normally, and \<open>self.image\<close> holds the blank image created before the dispatch.
\<close>

theorem footprint_mismatch_returns_normally:
  "read_image (Some [])
     \<lparr>offset555 = 0, length_rec = 1800, uncompressedLength = 5, width = 58, height = 30,
      imgType = isometric, flags = [0, 0, 0, 0], alphaLength = 0, image_pil = None\<rparr>
   = Some (Inr (),
     \<lparr>offset555 = 0, length_rec = 1800, uncompressedLength = 5, width = 58, height = 30,
      imgType = isometric, flags = [0, 0, 0, 0], alphaLength = 0,
      image_pil = Some (PILImage_new (58, 30))\<rparr>)"
  by (simp add: read_image_def decode_by_type_def read_isometric_def Let_def verify_def
      read_buffer_def py_get_def py_index_def seek_read_def derive_size_def tile_profile_def tile_consts)

text \<open>
  Claim C6, amended: for every isometric record that passes \<open>verify\<close>, whose byte slice
  can be read and that has a fourth flag byte, if
  \<open>(width + 2) * baseHeight \<noteq> uncompressedLength\<close> with
  \<open>baseHeight = (width + 2) div 2\<close>, then \<open>read_image\<close> raises no exception: it returns
  early, before the mosaic and the overlay decoder, and stores no decoded raster;
  \<open>self.image\<close> is the blank image created before the dispatch.
\<close>

theorem footprint_mismatch_stops_decode:
  assumes "verify self"
    and "imgType self = isometric"
    and "read_buffer f2 self = Inr buffer"
    and "py_get (flags self) 3 = Inr flag3"
    and "(width self + 2) * ((width self + 2) div 2) \<noteq> uncompressedLength self"
  shows "read_image f2 self =
     Some (Inr (), self\<lparr>image_pil := Some (PILImage_new (width self, height self))\<rparr>)"
  using assms
  by (simp add: read_image_def decode_by_type_def read_isometric_def Let_def
      split: option.splits prod.splits)

theorem footprint_mismatch_stops_decode_witness:
  "verify \<lparr>offset555 = 0, length_rec = 3600, uncompressedLength = 3599, width = 58,
        height = 30, imgType = isometric, flags = [0, 0, 0, 1], alphaLength = 0,
        image_pil = None\<rparr>
   \<and> read_buffer (Some [1, 2, 3])
        \<lparr>offset555 = 0, length_rec = 3600, uncompressedLength = 3599, width = 58,
         height = 30, imgType = isometric, flags = [0, 0, 0, 1], alphaLength = 0,
         image_pil = None\<rparr> = Inr [1, 2, 3]
   \<and> (58 + 2) * ((58 + 2) div 2) \<noteq> (3599 :: int)
   \<and> read_image (Some [1, 2, 3])
        \<lparr>offset555 = 0, length_rec = 3600, uncompressedLength = 3599, width = 58,
         height = 30, imgType = isometric, flags = [0, 0, 0, 1], alphaLength = 0,
         image_pil = None\<rparr>
       = Some (Inr (),
        \<lparr>offset555 = 0, length_rec = 3600, uncompressedLength = 3599, width = 58,
         height = 30, imgType = isometric, flags = [0, 0, 0, 1], alphaLength = 0,
         image_pil = Some (PILImage_new (58, 30))\<rparr>)"
proof -
  let ?r = "\<lparr>offset555 = 0, length_rec = 3600, uncompressedLength = 3599, width = 58,
         height = 30, imgType = isometric, flags = [0, 0, 0, 1], alphaLength = 0,
         image_pil = None\<rparr>"
  have v: "verify ?r" by (simp add: verify_def)
  have t: "imgType ?r = isometric" by simp
  have b: "read_buffer (Some [1, 2, 3]) ?r = Inr [1, 2, 3]"
    by (simp add: read_buffer_def py_get_def py_index_def seek_read_def)
  have f: "py_get (flags ?r) 3 = Inr 1" by (simp add: py_get_def py_index_def)
  have m: "(width ?r + 2) * ((width ?r + 2) div 2) \<noteq> uncompressedLength ?r" by simp
  show ?thesis
    using footprint_mismatch_stops_decode [OF v t b f m] v b by simp
qed

section \<open>The plain decoder\<close>

text \<open>
  Claim C3: for a plain record with \<open>width > 0\<close>, \<open>height > 0\<close> and a byte slice of at
  least \<open>width * height * 2\<close> bytes, the two nested loops (rows outside, columns inside)
  end without an exception with the read index at \<open>width * height * 2\<close>, having read the
  samples one after the other from the start of the slice, and the cell at
  \<open>(row, col)\<close> of the grid holds the decoded sample number \<open>row * width + col\<close>.
  The pixel list is the one \<open>read_image\<close> allocates, of \<open>width * height\<close> cells.
\<close>

theorem read_plain_row_major:
  assumes "0 < w" and "0 < h"
    and "w * h * 2 \<le> int (length buffer)"
    and "int (length img) = w * h"
  shows "\<exists>img'. read_plain w h buffer img = Inr (img', w * h * 2)
     \<and> length img' = length img
     \<and> (\<forall>row col. 0 \<le> row \<and> row < h \<and> 0 \<le> col \<and> col < w \<longrightarrow>
          img' ! nat (row * w + col)
            = pixel_tuple (set555Pixel (le16 buffer (nat (row * w + col))) w))"
proof -
  define W H where "W = nat w" and "H = nat h"
  have W: "w = int W" and H: "h = int H" using assms(1,2) by (simp_all add: W_def H_def)
  have len: "length img = H * W"
    using assms(4) unfolding W H by (metis mult.commute nat_int of_nat_mult)
  have buf: "2 * length img \<le> length buffer"
    using assms(3,4) by simp
  from read_plain_inv [OF W H len buf]
  obtain img' i where r: "read_plain w h buffer img = Inr (img', i)"
    and inv: "plain_inv w buffer img (H * W) (img', i)" by auto
  from inv have i: "i = w * h * 2" and l: "length img' = length img"
    and cells: "\<forall>j < length img. img' ! j = pixel_tuple (set555Pixel (le16 buffer j) w)"
    by (simp_all add: plain_inv_def len W H)
  have "img' ! nat (row * w + col)
            = pixel_tuple (set555Pixel (le16 buffer (nat (row * w + col))) w)"
    if rc: "0 \<le> row" "row < h" "0 \<le> col" "col < w" for row col
  proof -
    have "row * w + col < (row + 1) * w" using rc by (simp add: algebra_simps)
    also have "\<dots> \<le> h * w" using rc assms(1) by (intro mult_right_mono) simp_all
    finally have "row * w + col < int (length img)" using assms(4) by (simp add: mult.commute)
    moreover have "0 \<le> row * w + col" using rc assms(1) by simp
    ultimately have "nat (row * w + col) < length img" by simp
    with cells show ?thesis by simp
  qed
  with r i l show ?thesis by blast
qed

theorem read_plain_row_major_witness:
  "(0 :: int) < 2 \<and> (0 :: int) < 1
   \<and> 2 * 1 * 2 \<le> int (length [0, 0, 255, 127 :: byte])
   \<and> int (length [(0, 0, 0, 0), (0, 0, 0, 0) :: rgba]) = 2 * 1
   \<and> read_plain 2 1 [0, 0, 255, 127] [(0, 0, 0, 0), (0, 0, 0, 0)]
       = Inr ([(0, 0, 0, 255), (255, 255, 255, 255)], 4)"
proof -
  let ?buf = "[0, 0, 255, 127 :: byte]" and ?img = "[(0, 0, 0, 0), (0, 0, 0, 0) :: rgba]"
  have h1: "(0 :: int) < 2" and h2: "(0 :: int) < 1" by simp_all
  have h3: "2 * 1 * 2 \<le> int (length ?buf)" by simp
  have h4: "int (length ?img) = 2 * 1" by simp
  from read_plain_row_major [OF h1 h2 h3 h4]
  obtain img' where r: "read_plain 2 1 ?buf ?img = Inr (img', 2 * 1 * 2)"
    and l: "length img' = length ?img"
    and cells: "\<forall>row col. 0 \<le> row \<and> row < 1 \<and> 0 \<le> col \<and> col < 2 \<longrightarrow>
          img' ! nat (row * 2 + col)
            = pixel_tuple (set555Pixel (le16 ?buf (nat (row * 2 + col))) 2)"
    by blast
  from cells [rule_format, of 0 0] have c0: "img' ! 0 = (0, 0, 0, 255)"
    by (simp add: le16_def set555Pixel_def pixel_tuple_def)
  from cells [rule_format, of 0 1] have c1: "img' ! 1 = (255, 255, 255, 255)"
    by (simp add: le16_def set555Pixel_def pixel_tuple_def)
  have "img' = [(0, 0, 0, 255), (255, 255, 255, 255)]"
    using l c0 c1 by (intro nth_equalityI) (auto simp: less_Suc_eq numeral_2_eq_2)
  with r show ?thesis by simp
qed

section \<open>The run-length decoder\<close>

text \<open>
  Claim C7, as stated, fails at width 5: after the three opaque pixels the skip of 2
  moves \<open>x\<close> to 5, which is not below the width, so the cursor wraps to column 0 of
  row 1.
\<close>

theorem sprite_stream_wraps_at_width_5:
  "rle_loop 5 [3, 0, 0, 0, 0, 0, 0, 255, 2] 9 (replicate (nat (5 * 1)) (0, 0, 0, 0), 0, 0, 0)
     = Some (Inr ([(0, 0, 0, 255), (0, 0, 0, 255), (0, 0, 0, 255), (0, 0, 0, 0), (0, 0, 0, 0)], 0, 1, 9))"
proof -
  have r3: "py_range 3 = [0, 1, 2]" by code_simp
  have r5: "replicate (nat (5 * 1)) (0 :: int, 0 :: int, 0 :: int, 0 :: int)
     = [(0, 0, 0, 0), (0, 0, 0, 0), (0, 0, 0, 0), (0, 0, 0, 0), (0, 0, 0, 0)]" by code_simp
  have w1: "wrap_cursor 5 5 0 = wrap_cursor 5 0 1"
    by (subst wrap_cursor.simps) simp
  have w2: "wrap_cursor 5 0 1 = Some (0, 1)"
    by (subst wrap_cursor.simps) simp
  show ?thesis
    unfolding r5
    apply (subst rle_loop.simps)
    apply (simp add: py_get_def py_index_def opaque_run_def r3 opaque_pixel_def sample_def
        py_set_def set555Pixel_def pixel_tuple_def)
    apply (subst rle_loop.simps)
    apply (simp add: py_get_def py_index_def w1 w2)
    apply (subst rle_loop.simps)
    apply simp
    done
qed

text \<open>
  Claim C7, amended: for every width \<open>>= 5\<close>, every height \<open>> 0\<close> and all bytes
  \<open>s0..s5\<close>, the loop of \<open>writeTransparentImage\<close> on the stream
  \<open>[3, s0, s1, s2, s3, s4, s5, 255, 2]\<close> over the transparent grid consumes the 9 bytes,
  writes the decodes of \<open>s0 s1\<close>, \<open>s2 s3\<close>, \<open>s4 s5\<close> at positions 0, 1, 2 and nothing
  else, each with alpha 255, and leaves positions 3 and 4 \<open>(0, 0, 0, 0)\<close>.  The cursor
  ends at \<open>x = 5, y = 0\<close>, with no row wrap, when the width is at least 6; at width 5
  it ends wrapped at \<open>x = 0, y = 1\<close>.
\<close>

theorem sprite_stream_three_then_skip:
  fixes s0 s1 s2 s3 s4 s5 :: byte
  assumes "5 \<le> w" and "0 < h"
  shows "rle_loop w [3, s0, s1, s2, s3, s4, s5, 255, 2] 9
       (replicate (nat (w * h)) (0, 0, 0, 0), 0, 0, 0)
     = Some (Inr ((replicate (nat (w * h)) (0, 0, 0, 0))
           [0 := pixel_tuple (set555Pixel (uint s0 OR push_bit 8 (uint s1)) w),
            1 := pixel_tuple (set555Pixel (uint s2 OR push_bit 8 (uint s3)) w),
            2 := pixel_tuple (set555Pixel (uint s4 OR push_bit 8 (uint s5)) w)],
         (if w = 5 then 0 else 5), (if w = 5 then 1 else 0), 9))
   \<and> snd (snd (snd (pixel_tuple (set555Pixel (uint s0 OR push_bit 8 (uint s1)) w)))) = 255
   \<and> snd (snd (snd (pixel_tuple (set555Pixel (uint s2 OR push_bit 8 (uint s3)) w)))) = 255
   \<and> snd (snd (snd (pixel_tuple (set555Pixel (uint s4 OR push_bit 8 (uint s5)) w)))) = 255
   \<and> (replicate (nat (w * h)) (0, 0, 0, 0))
           [0 := pixel_tuple (set555Pixel (uint s0 OR push_bit 8 (uint s1)) w),
            1 := pixel_tuple (set555Pixel (uint s2 OR push_bit 8 (uint s3)) w),
            2 := pixel_tuple (set555Pixel (uint s4 OR push_bit 8 (uint s5)) w)] ! 3 = (0, 0, 0, 0)
   \<and> (replicate (nat (w * h)) (0, 0, 0, 0))
           [0 := pixel_tuple (set555Pixel (uint s0 OR push_bit 8 (uint s1)) w),
            1 := pixel_tuple (set555Pixel (uint s2 OR push_bit 8 (uint s3)) w),
            2 := pixel_tuple (set555Pixel (uint s4 OR push_bit 8 (uint s5)) w)] ! 4 = (0, 0, 0, 0)"
proof -
  let ?buf = "[3, s0, s1, s2, s3, s4, s5, 255, 2]"
  let ?g = "replicate (nat (w * h)) (0, 0, 0, 0) :: rgba list"
  let ?d0 = "pixel_tuple (set555Pixel (uint s0 OR push_bit 8 (uint s1)) w)"
  let ?d1 = "pixel_tuple (set555Pixel (uint s2 OR push_bit 8 (uint s3)) w)"
  let ?d2 = "pixel_tuple (set555Pixel (uint s4 OR push_bit 8 (uint s5)) w)"
  have "5 * 1 \<le> w * h" using assms by (intro mult_mono) simp_all
  then have len: "5 \<le> length ?g" by simp
  have smp: "sample ?buf 1 = Inr (uint s0 OR push_bit 8 (uint s1))"
    "sample ?buf 3 = Inr (uint s2 OR push_bit 8 (uint s3))"
    "sample ?buf 5 = Inr (uint s4 OR push_bit 8 (uint s5))"
    by (simp_all add: sample_def py_get_def py_index_def)
  have p0: "opaque_pixel w ?buf (?g, 0, 0, 1) = Inr (?g[0 := ?d0], 1, 0, 3)"
    using opaque_pixel_in_row [OF smp(1), of 0 w ?g] assms len by simp
  have p1: "opaque_pixel w ?buf (?g[0 := ?d0], 1, 0, 3) = Inr (?g[0 := ?d0, 1 := ?d1], 2, 0, 5)"
    using opaque_pixel_in_row [OF smp(2), of 1 w "?g[0 := ?d0]"] assms len by simp
  have p2: "opaque_pixel w ?buf (?g[0 := ?d0, 1 := ?d1], 2, 0, 5)
      = Inr (?g[0 := ?d0, 1 := ?d1, 2 := ?d2], 3, 0, 7)"
    using opaque_pixel_in_row [OF smp(3), of 2 w "?g[0 := ?d0, 1 := ?d1]"] assms len
    by (simp add: numeral_2_eq_2)
  have r3: "py_range 3 = [0, 1, 2]" by code_simp
  have run: "opaque_run w ?buf 3 (?g, 0, 0, 1) = Inr (?g[0 := ?d0, 1 := ?d1, 2 := ?d2], 3, 0, 7)"
    by (simp only: opaque_run_def r3 for_each.simps p0 p1 p2 sum.case)
  have stop: "rle_loop w ?buf 9 (img, x, y, 9) = Some (Inr (img, x, y, 9))" for img x y
    by (subst rle_loop.simps) simp
  have skip: "rle_loop w ?buf 9 (img, 3, 0, 7)
      = Some (Inr (img, (if w = 5 then 0 else 5), (if w = 5 then 1 else 0), 9))" for img
    by (subst rle_loop.simps) (simp add: py_get_def py_index_def wrap_cursor_5 [OF assms(1)] stop)
  have "rle_loop w ?buf 9 (?g, 0, 0, 0)
      = rle_loop w ?buf 9 (?g[0 := ?d0, 1 := ?d1, 2 := ?d2], 3, 0, 7)"
    by (subst rle_loop.simps) (simp add: py_get_def py_index_def run)
  then have main: "rle_loop w ?buf 9 (?g, 0, 0, 0)
      = Some (Inr (?g[0 := ?d0, 1 := ?d1, 2 := ?d2],
           (if w = 5 then 0 else 5), (if w = 5 then 1 else 0), 9))"
    by (simp only: skip)
  have t3: "?g[0 := ?d0, 1 := ?d1, 2 := ?d2] ! 3 = (0, 0, 0, 0)"
    and t4: "?g[0 := ?d0, 1 := ?d1, 2 := ?d2] ! 4 = (0, 0, 0, 0)"
    using len by simp_all
  show ?thesis
    using main t3 t4 by (simp only: pixel_tuple_alpha simp_thms)
qed


theorem sprite_stream_three_then_skip_witness:
  "(5 :: int) \<le> 6 \<and> (0 :: int) < 1
   \<and> rle_loop 6 [3, 255, 127, 0, 0, 31, 248, 255, 2] 9
       (replicate (nat (6 * 1)) (0, 0, 0, 0), 0, 0, 0)
     = Some (Inr ([(255, 255, 255, 255), (0, 0, 0, 255), (0, 0, 0, 255),
                  (0, 0, 0, 0), (0, 0, 0, 0), (0, 0, 0, 0)], 5, 0, 9))"
proof -
  have h1: "(5 :: int) \<le> 6" and h2: "(0 :: int) < 1" by simp_all
  have g: "replicate (nat (6 * 1)) (0 :: int, 0 :: int, 0 :: int, 0 :: int)
     = [(0, 0, 0, 0), (0, 0, 0, 0), (0, 0, 0, 0), (0, 0, 0, 0), (0, 0, 0, 0), (0, 0, 0, 0)]"
    by code_simp
  show ?thesis
    using sprite_stream_three_then_skip [OF h1 h2, of 255 127 0 0 31 248]
    unfolding g by (simp add: set555Pixel_def pixel_tuple_def)
qed

section \<open>The isometric overlay\<close>

text \<open>
  Claim C4: for an isometric record of positive width that passes the two geometry
  checks, the result of the isometric branch is the base mosaic followed by one run of
  \<open>writeTransparentImage\<close> on the bytes from \<open>uncompressedLength\<close> on, with the length
  \<open>length - uncompressedLength\<close>, from cursor \<open>(0, 0)\<close> over the grid the mosaic pass
  left: the loop that the source repeats in line after that call changes nothing.  A
  pixel of the result is the pixel of the overlay stream where the stream wrote one, and
  the pixel of the base mosaic everywhere else; the pixels the stream writes are those
  that the same stream, decoded over a transparent grid, makes non-transparent.
\<close>

theorem isometric_overlay:
  assumes "0 < width self"
    and "py_get (flags self) 3 = Inr flag3"
    and "tile_profile (derive_size (uint flag3) ((width self + 2) div 2))
           ((width self + 2) div 2) = Some (tileBytes, tileHeight, tileWidth)"
    and "(width self + 2) * ((width self + 2) div 2) = uncompressedLength self"
  shows "read_isometric self img buffer =
      (case write_base (width self) buffer (derive_size (uint flag3) ((width self + 2) div 2))
              tileBytes tileWidth tileHeight (height self - (width self + 2) div 2) img of
         Inl e \<Rightarrow> Some (Inl e)
       | Inr (base, i, yOffset) \<Rightarrow>
           (case writeTransparentImage (width self) base
                   (py_slice_from buffer (uncompressedLength self))
                   (length_rec self - uncompressedLength self) of
              None \<Rightarrow> None
            | Some (Inl e) \<Rightarrow> Some (Inl e)
            | Some (Inr final) \<Rightarrow> Some (Inr (Some final))))
    \<and> (\<forall>base final.
          writeTransparentImage (width self) base
             (py_slice_from buffer (uncompressedLength self))
             (length_rec self - uncompressedLength self) = Some (Inr final) \<longrightarrow>
          (\<exists>S. writeTransparentImage (width self) (replicate (length base) (0, 0, 0, 0))
                  (py_slice_from buffer (uncompressedLength self))
                  (length_rec self - uncompressedLength self) = Some (Inr S)
             \<and> length final = length base
             \<and> (\<forall>j < length base.
                   final ! j = (if S ! j = (0, 0, 0, 0) then base ! j else S ! j))))"
proof (intro conjI allI impI)
  let ?w = "width self" and ?u = "uncompressedLength self" and ?len = "length_rec self"
  have u: "0 \<le> ?u"
  proof -
    have "0 \<le> (?w + 2) div 2" using assms(1) by simp
    then have "0 \<le> (?w + 2) * ((?w + 2) div 2)" using assms(1) by simp
    then show ?thesis using assms(4) by simp
  qed
  show "read_isometric self img buffer =
      (case write_base ?w buffer (derive_size (uint flag3) ((?w + 2) div 2))
              tileBytes tileWidth tileHeight (height self - (?w + 2) div 2) img of
         Inl e \<Rightarrow> Some (Inl e)
       | Inr (base, i, yOffset) \<Rightarrow>
           (case writeTransparentImage ?w base (py_slice_from buffer ?u) (?len - ?u) of
              None \<Rightarrow> None
            | Some (Inl e) \<Rightarrow> Some (Inl e)
            | Some (Inr final) \<Rightarrow> Some (Inr (Some final))))"
  proof (cases "write_base ?w buffer (derive_size (uint flag3) ((?w + 2) div 2))
              tileBytes tileWidth tileHeight (height self - (?w + 2) div 2) img")
    case (Inl e)
    then show ?thesis
      using assms(2,3,4) by (simp add: read_isometric_def Let_def)
  next
    case (Inr r)
    obtain base i yo where r: "r = (base, i, yo)" by (cases r) auto
    show ?thesis
    proof (cases "writeTransparentImage ?w base (py_slice_from buffer ?u) (?len - ?u)")
      case None
      then show ?thesis
        using assms(2,3,4) Inr r by (simp add: read_isometric_def Let_def)
    next
      case (Some res)
      show ?thesis
      proof (cases res)
        case (Inl e)
        then show ?thesis
          using assms(2,3,4) Inr r Some by (simp add: read_isometric_def Let_def)
      next
        case (Inr img2) note img2 = this
        from second_pass_idle [OF Some [unfolded img2] assms(1) u]
        obtain x y i' where "rle_loop ?w buffer (?len - ?u) (img2, 0, 0, ?u)
            = Some (Inr (img2, x, y, i'))" by blast
        then show ?thesis
          using assms(2,3,4) \<open>write_base ?w buffer (derive_size (uint flag3) ((?w + 2) div 2))
              tileBytes tileWidth tileHeight (height self - (?w + 2) div 2) img = Inr r\<close>
            r Some img2 by (simp add: read_isometric_def Let_def)
      qed
    qed
  qed
next
  fix base final
  assume "writeTransparentImage (width self) base
             (py_slice_from buffer (uncompressedLength self))
             (length_rec self - uncompressedLength self) = Some (Inr final)"
  then show "\<exists>S. writeTransparentImage (width self) (replicate (length base) (0, 0, 0, 0))
                  (py_slice_from buffer (uncompressedLength self))
                  (length_rec self - uncompressedLength self) = Some (Inr S)
             \<and> length final = length base
             \<and> (\<forall>j < length base.
                   final ! j = (if S ! j = (0, 0, 0, 0) then base ! j else S ! j))"
    by (rule overlay_composite)
qed

theorem isometric_overlay_witness:
  "(0 :: int) < 58
   \<and> py_get [0, 0, 0, 0 :: byte] 3 = Inr 0
   \<and> tile_profile (derive_size (uint (0 :: byte)) ((58 + 2) div 2)) ((58 + 2) div 2)
       = Some (1800, 30, 58)
   \<and> (58 + 2) * ((58 + 2) div 2) = (1800 :: int)
   \<and> read_isometric
        \<lparr>offset555 = 0, length_rec = 1803, uncompressedLength = 1800, width = 58, height = 30,
         imgType = isometric, flags = [0, 0, 0, 0], alphaLength = 0, image_pil = None\<rparr>
        (replicate 1740 (0, 0, 0, 0)) (replicate 1800 0 @ [1, 255, 127])
      = (case write_base 58 (replicate 1800 0 @ [1, 255, 127]) 1 1800 58 30 0
                (replicate 1740 (0, 0, 0, 0)) of
           Inl e \<Rightarrow> Some (Inl e)
         | Inr (base, i, yOffset) \<Rightarrow> Some (Inr (Some (base[0 := (255, 255, 255, 255)]))))
   \<and> (\<exists>S. writeTransparentImage 58 (replicate (length [(9, 9, 9, 255), (7, 7, 7, 255) :: rgba]) (0, 0, 0, 0))
              [1, 255, 127] 3 = Some (Inr S)
          \<and> S ! 0 = (255, 255, 255, 255))"
proof -
  let ?r = "\<lparr>offset555 = 0, length_rec = 1803, uncompressedLength = 1800, width = 58,
         height = 30, imgType = isometric, flags = [0, 0, 0, 0], alphaLength = 0,
         image_pil = None\<rparr>"
  let ?buf = "replicate 1800 0 @ [1, 255, 127] :: byte list"
  let ?img = "replicate 1740 (0, 0, 0, 0) :: rgba list"
  have h1: "0 < width ?r" by simp
  have h2: "py_get (flags ?r) 3 = Inr 0" by (simp add: py_get_def py_index_def)
  have ds: "derive_size 0 30 = 1"
    by (simp add: derive_size_def tile_consts)
  have h3: "tile_profile (derive_size (uint (0 :: byte)) ((width ?r + 2) div 2))
       ((width ?r + 2) div 2) = Some (1800, 30, 58)"
    by (simp add: derive_size_def tile_profile_def tile_consts)
  have h4: "(width ?r + 2) * ((width ?r + 2) div 2) = uncompressedLength ?r" by simp
  note inst = isometric_overlay [OF h1 h2 h3 h4]
  have sl: "py_slice_from ?buf 1800 = [1, 255, 127]"
    by (simp add: py_slice_from_def)
  have white: "pixel_tuple (set555Pixel 32767 w) = (255, 255, 255, 255)" for w
    by (simp add: set555Pixel_def pixel_tuple_def)
  have ov: "writeTransparentImage 58 g [1, 255, 127] 3 = Some (Inr (g[0 := (255, 255, 255, 255)]))"
    if "0 < length g" for g :: "rgba list"
  proof -
    have r1: "py_range 1 = [0]" by code_simp
    have "opaque_run 58 [1, 255, 127] 1 (g, 0, 0, 1) = Inr (g[0 := (255, 255, 255, 255)], 1, 0, 3)"
      using that
      by (simp add: opaque_run_def r1 opaque_pixel_def sample_def py_get_def py_set_def
          py_index_def white)
    then have "rle_loop 58 [1, 255, 127] 3 (g, 0, 0, 0)
        = rle_loop 58 [1, 255, 127] 3 (g[0 := (255, 255, 255, 255)], 1, 0, 3)"
      by (subst rle_loop.simps) (simp add: py_get_def py_index_def)
    also have "\<dots> = Some (Inr (g[0 := (255, 255, 255, 255)], 1, 0, 3))"
      by (subst rle_loop.simps) simp
    finally show ?thesis by (simp add: writeTransparentImage_def)
  qed
  have eq: "read_isometric ?r ?img ?buf
      = (case write_base 58 ?buf 1 1800 58 30 0 ?img of
           Inl e \<Rightarrow> Some (Inl e)
         | Inr (base, i, yOffset) \<Rightarrow>
             (case writeTransparentImage 58 base [1, 255, 127] 3 of
                None \<Rightarrow> None
              | Some (Inl e) \<Rightarrow> Some (Inl e)
              | Some (Inr final) \<Rightarrow> Some (Inr (Some final))))"
    using inst [of ?img ?buf, THEN conjunct1]
    by (simp add: ds sl cong: sum.case_cong option.case_cong prod.case_cong)
  have c1: "read_isometric ?r ?img ?buf
      = (case write_base 58 ?buf 1 1800 58 30 0 ?img of
           Inl e \<Rightarrow> Some (Inl e)
         | Inr (base, i, yOffset) \<Rightarrow> Some (Inr (Some (base[0 := (255, 255, 255, 255)]))))"
  proof (cases "write_base 58 ?buf 1 1800 58 30 0 ?img")
    case (Inl e)
    with eq show ?thesis by simp
  next
    case (Inr t)
    obtain base i yo where t: "t = (base, i, yo)" by (cases t) auto
    from write_base_length [OF Inr [unfolded t]] have "0 < length base" by simp
    from ov [OF this] eq Inr t show ?thesis by simp
  qed
  let ?base = "[(9, 9, 9, 255), (7, 7, 7, 255)] :: rgba list"
  have fin: "writeTransparentImage (width ?r) ?base
      (py_slice_from ?buf (uncompressedLength ?r)) (length_rec ?r - uncompressedLength ?r)
      = Some (Inr (?base[0 := (255, 255, 255, 255)]))"
    using ov [of ?base] by (simp add: sl)
  from inst [of ?img ?buf, THEN conjunct2, rule_format, OF fin]
  obtain S where S: "writeTransparentImage 58 (replicate (length ?base) (0, 0, 0, 0)) [1, 255, 127] 3
        = Some (Inr S)"
    and comp: "\<forall>j < length ?base. ?base[0 := (255, 255, 255, 255)] ! j
        = (if S ! j = (0, 0, 0, 0) then ?base ! j else S ! j)"
    by (auto simp: sl)
  from comp [rule_format, of 0] have "S ! 0 = (255, 255, 255, 255)"
    by (simp split: if_splits)
  with S have c2: "\<exists>S. writeTransparentImage 58 (replicate (length ?base) (0, 0, 0, 0))
      [1, 255, 127] 3 = Some (Inr S) \<and> S ! 0 = (255, 255, 255, 255)" by blast
  show ?thesis
    using h2 h3 c1 c2 by simp
qed

section \<open>The eager reader\<close>

text \<open>
  Claim C10: in \<open>read_images\<close> the record at index 0 is skipped for every collection.
  Processing it reads its header from the metadata file and nothing else: the outcome
  does not depend on the companion pixel file or on the image constructor, and the list
  of images is as it was (the only other outcome is the IndexError of \<open>debug(flags[3])\<close>
  when the metadata file ends inside the record, which appends nothing either).  For the
  whole collection, a call that returns or raises has appended at most
  \<open>numImages - 1\<close> images, none when \<open>numImages\<close> is 0.
\<close>

theorem first_record_is_skipped:
  "(\<forall>frombuffer' f2'.
      read_images_loop frombuffer' f f2' includeAlpha [0] (pos, imgs)
        = read_images_loop frombuffer f f2 includeAlpha [0] (pos, imgs))
   \<and> (\<exists>e pos'. read_images_loop frombuffer f f2 includeAlpha [0] (pos, imgs)
          = Some (e, pos', imgs))
   \<and> (\<forall>e self'. read_images frombuffer f f2 includeAlpha self = Some (e, self') \<longrightarrow>
         (\<exists>new. images self' = images self @ new \<and> length new \<le> nat (numImages self - 1)))"
proof (intro conjI allI impI)
  fix frombuffer' :: "int \<times> int \<Rightarrow> byte list \<Rightarrow> exn + 'a" and f2'
  show "read_images_loop frombuffer' f f2' includeAlpha [0] (pos, imgs)
        = read_images_loop frombuffer f f2 includeAlpha [0] (pos, imgs)"
    by (simp split: sum.splits)
next
  show "\<exists>e pos'. read_images_loop frombuffer f f2 includeAlpha [0] (pos, imgs)
          = Some (e, pos', imgs)"
    by (simp split: sum.splits prod.splits)
next
  fix e self'
  assume run: "read_images frombuffer f f2 includeAlpha self = Some (e, self')"
  then obtain p im where
    loop: "read_images_loop frombuffer f f2 includeAlpha (py_range (numImages self))
        (offset self, images self) = Some (e, p, im)"
    and self': "self' = self\<lparr>offset := p, images := im\<rparr>"
    by (auto simp: read_images_def split: option.splits)
  from read_images_loop_bound [OF loop] obtain new where
    "im = images self @ new"
    "length new \<le> length (filter (\<lambda>k. k \<noteq> 0) (py_range (numImages self)))" by blast
  then show "\<exists>new. images self' = images self @ new \<and> length new \<le> nat (numImages self - 1)"
    using self' by (auto simp: py_range_nonzero)
qed

theorem first_record_is_skipped_witness:
  "read_images (\<lambda>sz bs. Inr (sz, bs))
      (replicate 64 255 @ [0, 0, 0, 0, 2, 0, 0, 0, 0, 0, 0, 0, 0, 0, 0, 0, 0, 0, 0, 0, 1, 0, 1, 0]
         @ replicate 26 0 @ [0, 0, 0, 0, 0, 0, 0] @ replicate 7 0)
      (Some [255, 127]) False \<lparr>offset = 0, numImages = 2, images = []\<rparr>
     = Some (None, \<lparr>offset = 128, numImages = 2, images = [((1, 1), [255, 255, 255, 255])]\<rparr>)
   \<and> length (images \<lparr>offset = 128, numImages = 2,
          images = [((1 :: int, 1 :: int), [255, 255, 255, 255 :: byte])]\<rparr>) \<le> nat (2 - 1)"
proof -
  define f :: "byte list" where
    "f = replicate 64 255 @ [0, 0, 0, 0, 2, 0, 0, 0, 0, 0, 0, 0, 0, 0, 0, 0, 0, 0, 0, 0, 1, 0, 1, 0]
         @ replicate 26 0 @ [0, 0, 0, 0, 0, 0, 0] @ replicate 7 0"
  define fb :: "int \<times> int \<Rightarrow> byte list \<Rightarrow> exn + (int \<times> int) \<times> byte list" where
    "fb = (\<lambda>sz bs. Inr (sz, bs))"
  define r1 where
    "r1 = \<lparr>r_offset = 0, r_length = 2, r_uncompressed_length = 0, r_width = 1, r_height = 1,
           r_imgType = 0, r_flags = [0, 0, 0, 0], r_alpha_length = 0\<rparr>"
  define r0 where
    "r0 = \<lparr>r_offset = 4294967295, r_length = 4294967295, r_uncompressed_length = 4294967295,
           r_width = -1, r_height = -1, r_imgType = 65535, r_flags = [255, 255, 255, 255],
           r_alpha_length = 0\<rparr>"
  have rec0': "read_record f 0 False = Inr (r0, 64)"
    unfolding f_def r0_def by code_simp
  have rec1: "read_record f 64 False = Inr (r1, 128)"
    unfolding f_def r1_def by code_simp
  have dec1: "decode_record fb (Some [255, 127]) r1 [] = Some (Inr [((1, 1), [255, 255, 255, 255])])"
    unfolding fb_def r1_def by code_simp
  have r2: "py_range 2 = [0, 1]" by code_simp
  have run: "read_images fb f (Some [255, 127]) False \<lparr>offset = 0, numImages = 2, images = []\<rparr>
     = Some (None, \<lparr>offset = 128, numImages = 2, images = [((1, 1), [255, 255, 255, 255])]\<rparr>)"
    unfolding read_images_def
    by (simp add: r2 rec0' rec1 dec1)
  from first_record_is_skipped [where frombuffer = fb and f = f and ?f2.0 = "Some [255, 127]"
      and includeAlpha = False and self = "\<lparr>offset = 0, numImages = 2, images = []\<rparr>",
      THEN conjunct2, THEN conjunct2, rule_format, OF run]
  have "length (images \<lparr>offset = 128, numImages = 2,
          images = [((1 :: int, 1 :: int), [255, 255, 255, 255 :: byte])]\<rparr>) \<le> nat (2 - 1)"
    by auto
  with run show ?thesis unfolding f_def fb_def by blast
qed

end
